theory Spec2Isabelle
  imports Complex_Main "HOL-Library.Product_Lexorder"
begin

section \<open>Numbers\<close>

text \<open>
  The repository holds two solutions of the same problem: \<^verbatim>\<open>main.c\<close> (double,
  a finite sentinel \<^verbatim>\<open>INF = 1e100\<close>, here \<open>INF_c\<close>, one Dijkstra run per query) and \<^verbatim>\<open>main.cpp\<close>
  (long double, the IEEE infinity as sentinel, one Floyd-Warshall run per query).
  Both are embedded here. A \<^verbatim>\<open>double\<close> or \<^verbatim>\<open>long double\<close> that holds a finite number is
  modelled by a \<^typ>\<open>real\<close>: rounding is not modelled. The values that are not numbers
  are written out where the code can produce them: the infinity of \<^verbatim>\<open>main.cpp\<close>'s
  matrices, the quotient of a division by zero and the NaN of an \<^verbatim>\<open>acos\<close> call
  outside \<open>[-1, 1]\<close>.
\<close>

definition MAXN :: nat where
  "MAXN = 25"

definition PI :: real where
  "PI = 3.14159265358979323846"

definition INF_c :: real where
  "INF_c = 10 ^ 100"

definition EARTH_R :: real where
  "EARTH_R = 6370"

text \<open>\<^verbatim>\<open>acos\<close> of libm: a number on \<open>[-1, 1]\<close>, NaN (here \<open>None\<close>) outside.\<close>

definition acos_c :: "real \<Rightarrow> real option" where
  "acos_c a = (if - 1 \<le> a \<and> a \<le> 1 then Some (arccos a) else None)"

text \<open>\<^verbatim>\<open>atan2(y, x)\<close> of libm on finite arguments (the sign of a zero is not modelled).\<close>

definition atan2 :: "real \<Rightarrow> real \<Rightarrow> real" where
  "atan2 b a =
     (if 0 < a then arctan (b / a)
      else if a < 0 then (if 0 \<le> b then arctan (b / a) + pi else arctan (b / a) - pi)
      else if 0 < b then pi / 2
      else if b < 0 then - (pi / 2)
      else 0)"

section \<open>main.c: vectors\<close>

record Vec =
  vx :: real
  vy :: real
  vz :: real

definition dot :: "Vec \<Rightarrow> Vec \<Rightarrow> real" where
  "dot a b = vx a * vx b + vy a * vy b + vz a * vz b"

definition cross :: "Vec \<Rightarrow> Vec \<Rightarrow> Vec" where
  "cross a b = \<lparr>vx = vy a * vz b - vz a * vy b,
               vy = vz a * vx b - vx a * vz b,
               vz = vx a * vy b - vy a * vx b\<rparr>"

definition norm_v :: "Vec \<Rightarrow> real" where
  "norm_v a = sqrt (dot a a)"

definition scale :: "Vec \<Rightarrow> real \<Rightarrow> Vec" where
  "scale v s = \<lparr>vx = vx v * s, vy = vy v * s, vz = vz v * s\<rparr>"

definition addv :: "Vec \<Rightarrow> Vec \<Rightarrow> Vec" where
  "addv a b = \<lparr>vx = vx a + vx b, vy = vy a + vy b, vz = vz a + vz b\<rparr>"

definition subv :: "Vec \<Rightarrow> Vec \<Rightarrow> Vec" where
  "subv a b = \<lparr>vx = vx a - vx b, vy = vy a - vy b, vz = vz a - vz b\<rparr>"

definition normalize_v :: "Vec \<Rightarrow> Vec" where
  "normalize_v v = (let n = norm_v v in if n > 0 then scale v (1 / n) else v)"

definition sph2vec :: "real \<Rightarrow> real \<Rightarrow> Vec" where
  "sph2vec lon_deg lat_deg =
     (let lon = lon_deg * PI / 180;
          lat = lat_deg * PI / 180;
          cl = cos lat;
          sl = sin lat
      in \<lparr>vx = cl * cos lon, vy = cl * sin lon, vz = sl\<rparr>)"

section \<open>main.c: the node list\<close>

text \<open>
  Lines 93 to 124, the body of the loop over the airport pairs \<open>i < j\<close>: the points
  that one pair appends to \<^verbatim>\<open>V\<close> (none after a \<^verbatim>\<open>continue\<close>, else \<^verbatim>\<open>i1\<close> and \<^verbatim>\<open>i2\<close>).
\<close>

definition circle_pair :: "real \<Rightarrow> real \<Rightarrow> Vec \<Rightarrow> Vec \<Rightarrow> Vec list" where
  "circle_pair alpha cosA u v =
     (let cuv = dot u v in
      if cuv < cos (2 * alpha) - 1 / 10 ^ 12 then []
      else
        let Delta = 1 - cuv * cuv in
        if Delta < 1 / 10 ^ 15 then []
        else
          let k = cosA * (1 - cuv) / Delta;
              p = \<lparr>vx = k * (vx u + vx v), vy = k * (vy u + vy v), vz = k * (vz u + vz v)\<rparr>;
              p2 = dot p p;
              h2 = 1 - p2;
              h2 = (if h2 < 0 then 0 else h2);
              h = sqrt h2;
              n = cross u v;
              nl = norm_v n
          in
          if nl < 1 / 10 ^ 15 then []
          else
            let n = scale n (1 / nl);
                n = scale n h;
                i1 = addv p n;
                i2 = subv p n
            in [normalize_v i1, normalize_v i2])"

definition index_pairs :: "nat \<Rightarrow> (nat \<times> nat) list" where
  "index_pairs N = concat (map (\<lambda>i. map (\<lambda>j. (i, j)) [i + 1..<N]) [0..<N])"

text \<open>Lines 84 to 124: the airports first, then the points of every pair in loop order.\<close>

definition build_nodes :: "real \<Rightarrow> Vec list \<Rightarrow> Vec list" where
  "build_nodes alpha airports =
     airports @
     concat (map (\<lambda>(i, j). circle_pair alpha (cos alpha) (airports ! i) (airports ! j))
                 (index_pairs (length airports)))"

section \<open>main.c: coverage of one arc\<close>

text \<open>Lines 164 to 167: the two loops that bring an angle into \<open>[0, 2 PI]\<close>.\<close>

function wrap_up :: "real \<Rightarrow> real" where
  "wrap_up t = (if t < 0 then wrap_up (t + 2 * PI) else t)"
  by pat_completeness auto
termination
proof (relation "measure (\<lambda>t. nat \<lceil>- t / (2 * PI)\<rceil>)")
  show "wf (measure (\<lambda>t. nat \<lceil>- t / (2 * PI)\<rceil>))" by simp
next
  fix t :: real
  assume neg: "t < 0"
  have P: "0 < 2 * PI" by (simp add: PI_def)
  have e: "- (t + 2 * PI) / (2 * PI) = - t / (2 * PI) - 1"
    using P by (simp add: field_simps)
  have "0 < - t / (2 * PI)" using neg P by (intro divide_pos_pos) auto
  then have pos: "0 < \<lceil>- t / (2 * PI)\<rceil>" by simp
  have "\<lceil>- (t + 2 * PI) / (2 * PI)\<rceil> = \<lceil>- t / (2 * PI)\<rceil> - 1"
    unfolding e by (rule ceiling_diff_one)
  with pos have "nat \<lceil>- (t + 2 * PI) / (2 * PI)\<rceil> < nat \<lceil>- t / (2 * PI)\<rceil>"
    by linarith
  then show "(t + 2 * PI, t) \<in> measure (\<lambda>t. nat \<lceil>- t / (2 * PI)\<rceil>)"
    unfolding in_measure .
qed

function wrap_down :: "real \<Rightarrow> real" where
  "wrap_down t = (if t > 2 * PI then wrap_down (t - 2 * PI) else t)"
  by pat_completeness auto
termination
proof (relation "measure (\<lambda>t. nat \<lceil>t / (2 * PI)\<rceil>)")
  show "wf (measure (\<lambda>t. nat \<lceil>t / (2 * PI)\<rceil>))" by simp
next
  fix t :: real
  assume big: "2 * PI < t"
  have P: "0 < 2 * PI" by (simp add: PI_def)
  have e: "(t - 2 * PI) / (2 * PI) = t / (2 * PI) - 1"
    using P by (simp add: field_simps)
  have "1 < t / (2 * PI)" using big P by (simp add: field_simps)
  then have pos: "1 < \<lceil>t / (2 * PI)\<rceil>" by linarith
  have "\<lceil>(t - 2 * PI) / (2 * PI)\<rceil> = \<lceil>t / (2 * PI)\<rceil> - 1"
    unfolding e by (rule ceiling_diff_one)
  with pos have "nat \<lceil>(t - 2 * PI) / (2 * PI)\<rceil> < nat \<lceil>t / (2 * PI)\<rceil>"
    by linarith
  then show "(t - 2 * PI, t) \<in> measure (\<lambda>t. nat \<lceil>t / (2 * PI)\<rceil>)"
    unfolding in_measure .
qed

declare wrap_up.simps [simp del] wrap_down.simps [simp del]

text \<open>
  Lines 149 to 192, the body of the loop over the airports: the intervals that the
  disk of one airport \<open>Ai\<close> appends to \<^verbatim>\<open>ivs\<close>. When \<^verbatim>\<open>acos\<close> returns NaN every later
  comparison is false, so neither branch appends.
\<close>

definition disk_intervals :: "Vec \<Rightarrow> Vec \<Rightarrow> real \<Rightarrow> real \<Rightarrow> Vec \<Rightarrow> (real \<times> real) list" where
  "disk_intervals abU abW theta_ab cosA Ai =
     (let du = dot abU Ai;
          dw = dot abW Ai;
          Rv = sqrt (du * du + dw * dw)
      in
      if Rv < 1 / 10 ^ 15 then []
      else if Rv < cosA then []
      else
        (case acos_c (cosA / Rv) of
           None \<Rightarrow> []
         | Some delta \<Rightarrow>
             let phi = atan2 dw du;
                 t1 = wrap_down (wrap_up (phi - delta));
                 t2 = wrap_down (wrap_up (phi + delta))
             in
             if t1 \<le> t2 then
               (if t2 < 0 \<or> t1 > theta_ab then []
                else [(max 0 t1, min theta_ab t2)])
             else
               (if t1 \<le> theta_ab then [(t1, theta_ab)] else []) @
               (if t2 \<ge> 0 then
                  (let uu = max 0 (0::real);
                       vv = min theta_ab t2
                   in if vv > uu then [(uu, vv)] else [])
                else [])))"

definition gather_intervals :: "Vec \<Rightarrow> Vec \<Rightarrow> real \<Rightarrow> real \<Rightarrow> Vec list \<Rightarrow> (real \<times> real) list" where
  "gather_intervals abU abW theta_ab cosA airports =
     concat (map (disk_intervals abU abW theta_ab cosA) airports)"

text \<open>
  Lines 196 to 206. The inner loop consumes every interval that starts at or before
  \<^verbatim>\<open>reach + 1e-12\<close> (\<^verbatim>\<open>reach\<close> is fixed while it runs) and returns \<^verbatim>\<open>best\<close> with the
  intervals left; the outer loop repeats it until a gap, the end of the list, or
  until \<^verbatim>\<open>reach\<close> has arrived at \<^verbatim>\<open>theta_ab - 1e-12\<close>.
\<close>

fun sweep_inner :: "real \<Rightarrow> real \<Rightarrow> (real \<times> real) list \<Rightarrow> real \<times> (real \<times> real) list" where
  "sweep_inner reach best [] = (best, [])"
| "sweep_inner reach best (iv # ivs) =
     (if fst iv \<le> reach + 1 / 10 ^ 12
      then sweep_inner reach (if snd iv > best then snd iv else best) ivs
      else (best, iv # ivs))"

lemma sweep_inner_length: "length (snd (sweep_inner reach best ivs)) \<le> length ivs"
  by (induction ivs arbitrary: best) (auto intro: le_SucI)

function sweep_outer :: "real \<Rightarrow> real \<Rightarrow> (real \<times> real) list \<Rightarrow> real" where
  "sweep_outer theta_ab reach [] = reach"
| "sweep_outer theta_ab reach (iv # ivs) =
     (if fst iv \<le> reach + 1 / 10 ^ 12 then
        (let r = sweep_inner reach reach (iv # ivs);
             reach' = fst r
         in if reach' \<ge> theta_ab - 1 / 10 ^ 12 then reach'
            else sweep_outer theta_ab reach' (snd r))
      else reach)"
  by pat_completeness auto
termination
proof (relation "measure (\<lambda>(theta_ab, reach, ivs). length ivs)")
  show "wf (measure (\<lambda>(theta_ab, reach, ivs). length ivs))" by simp
next
  fix theta_ab reach :: real and iv :: "real \<times> real" and ivs r reach'
  assume c: "fst iv \<le> reach + 1 / 10 ^ 12" and r: "r = sweep_inner reach reach (iv # ivs)"
  have "length (snd r) \<le> length ivs"
    using c r sweep_inner_length [of reach "if snd iv > reach then snd iv else reach" ivs]
    by simp
  then show "((theta_ab, reach', snd r), (theta_ab, reach, iv # ivs))
               \<in> measure (\<lambda>(theta_ab, reach, ivs). length ivs)"
    by simp
qed

definition clamp1 :: "real \<Rightarrow> real" where
  "clamp1 c = (if c > 1 then 1 else if c < - 1 then - 1 else c)"

text \<open>
  Lines 134 to 212, the body of the loop over the node pairs \<open>a < b\<close>: \<open>Some d\<close> when
  the pair is given the direct distance \<open>d\<close>, \<open>None\<close> when \<^verbatim>\<open>D[a][b]\<close> keeps \<^verbatim>\<open>INF\<close>.
  \<^verbatim>\<open>qsort\<close> with \<^verbatim>\<open>compare_intervals\<close> orders the intervals by their start.
\<close>

definition pair_edge :: "Vec list \<Rightarrow> real \<Rightarrow> Vec \<Rightarrow> Vec \<Rightarrow> real option" where
  "pair_edge airports cosA Va Vb =
     (let cab = clamp1 (dot Va Vb) in
      case acos_c cab of
        None \<Rightarrow> None
      | Some theta_ab \<Rightarrow>
          if theta_ab < 1 / 10 ^ 12 then None
          else
            let abU = Va;
                tmp = subv Vb abU;
                tmp = scale tmp (1 / sin theta_ab);
                abW = tmp;
                ivs = gather_intervals abU abW theta_ab cosA airports
            in
            if ivs = [] then None
            else
              let ivs = sort_key fst ivs;
                  reach = sweep_outer theta_ab 0 ivs
              in if reach \<ge> theta_ab - 1 / 10 ^ 12 then Some (theta_ab * EARTH_R) else None)"

section \<open>main.c: the distance matrix and the queries\<close>

text \<open>
  Lines 126 to 212. A matrix is a function of two indices. Every cell starts at 0
  on the diagonal and at \<^verbatim>\<open>INF\<close> elsewhere; the pair loop visits each \<open>a < b\<close> once and
  writes nothing but \<^verbatim>\<open>D[a][b]\<close> and \<^verbatim>\<open>D[b][a]\<close>.
\<close>

definition init_D :: "Vec list \<Rightarrow> real \<Rightarrow> Vec list \<Rightarrow> nat \<Rightarrow> nat \<Rightarrow> real" where
  "init_D airports cosA V a b =
     (if a = b then 0
      else case pair_edge airports cosA (V ! min a b) (V ! max a b) of
             Some dist_km \<Rightarrow> dist_km
           | None \<Rightarrow> INF_c)"

text \<open>Lines 214 to 222.\<close>

definition relax :: "nat \<Rightarrow> nat \<Rightarrow> (nat \<Rightarrow> nat \<Rightarrow> real) \<Rightarrow> nat \<Rightarrow> nat \<Rightarrow> nat \<Rightarrow> real" where
  "relax k i D j =
     (let via = D i k + D k j
      in if via < D i j then D(i := (D i)(j := via)) else D)"

definition floyd_row :: "nat \<Rightarrow> nat \<Rightarrow> (nat \<Rightarrow> nat \<Rightarrow> real) \<Rightarrow> nat \<Rightarrow> nat \<Rightarrow> nat \<Rightarrow> real" where
  "floyd_row Vn k D i =
     (if D i k \<ge> INF_c then D else fold (\<lambda>j D. relax k i D j) [0..<Vn] D)"

definition floyd_warshall :: "nat \<Rightarrow> (nat \<Rightarrow> nat \<Rightarrow> real) \<Rightarrow> nat \<Rightarrow> nat \<Rightarrow> real" where
  "floyd_warshall Vn D =
     fold (\<lambda>k D. fold (\<lambda>i D. floyd_row Vn k D i) [0..<Vn] D) [0..<Vn] D"

text \<open>Lines 245 to 248: the unused airport of least distance below \<^verbatim>\<open>INF\<close>, if any.\<close>

definition select_min :: "nat \<Rightarrow> (nat \<Rightarrow> real) \<Rightarrow> (nat \<Rightarrow> bool) \<Rightarrow> nat option \<times> real" where
  "select_min N distN used =
     fold (\<lambda>i (u, best). if \<not> used i \<and> distN i < best then (Some i, distN i) else (u, best))
          [0..<N] (None, INF_c)"

text \<open>Lines 251 to 256.\<close>

definition relax_from ::
  "(nat \<Rightarrow> nat \<Rightarrow> real) \<Rightarrow> real \<Rightarrow> nat \<Rightarrow> nat \<Rightarrow> (nat \<Rightarrow> real) \<Rightarrow> nat \<Rightarrow> real" where
  "relax_from AtoA c N u distN =
     fold (\<lambda>v d. let w = AtoA u v
                 in if w \<le> c + 1 / 10 ^ 9 \<and> d u + w < d v then d(v := d u + w) else d)
          [0..<N] distN"

text \<open>Lines 244 to 257: at most \<open>N\<close> rounds, left early when no airport is selected.\<close>

fun dijkstra_loop ::
  "(nat \<Rightarrow> nat \<Rightarrow> real) \<Rightarrow> real \<Rightarrow> nat \<Rightarrow> nat \<Rightarrow> (nat \<Rightarrow> real) \<times> (nat \<Rightarrow> bool)
     \<Rightarrow> (nat \<Rightarrow> real) \<times> (nat \<Rightarrow> bool)" where
  "dijkstra_loop AtoA c N 0 st = st"
| "dijkstra_loop AtoA c N (Suc it) st =
     (case fst (select_min N (fst st) (snd st)) of
        None \<Rightarrow> st
      | Some u \<Rightarrow>
          dijkstra_loop AtoA c N it (relax_from AtoA c N u (fst st), (snd st)(u := True)))"

text \<open>
  What a query prints: the token \<^verbatim>\<open>impossible\<close>, or a distance (\<^verbatim>\<open>printf\<close> rounds it to
  three decimals; the rounding is not modelled).
\<close>

datatype answer = Impossible | Distance real

text \<open>Lines 236 to 262, with \<open>s\<close> and \<open>t\<close> already counted from 0.\<close>

definition answer_query :: "(nat \<Rightarrow> nat \<Rightarrow> real) \<Rightarrow> nat \<Rightarrow> nat \<Rightarrow> nat \<Rightarrow> real \<Rightarrow> answer" where
  "answer_query AtoA N s t c =
     (let distN = fst (dijkstra_loop AtoA c N N (\<lambda>i. if i = s then 0 else INF_c, \<lambda>i. False))
      in if distN t \<ge> INF_c / 2 then Impossible else Distance (distN t))"

section \<open>main.cpp: points\<close>

record Point =
  px :: real
  py :: real
  pz :: real

definition R_earth :: real where
  "R_earth = 6370"

definition EPS :: real where
  "EPS = 1 / 10 ^ 9"

definition M_PI :: real where
  "M_PI = 3.14159265358979323846"

text \<open>\<^verbatim>\<open>Point::Compare\<close>, the ordering of the vertex set and of the vertex map.\<close>

definition Compare :: "Point \<Rightarrow> Point \<Rightarrow> bool" where
  "Compare a b =
     (if \<bar>px a - px b\<bar> > EPS then px a < px b
      else if \<bar>py a - py b\<bar> > EPS then py a < py b
      else pz a < pz b - EPS)"

text \<open>The operators \<^verbatim>\<open>+\<close>, \<^verbatim>\<open>-\<close>, \<^verbatim>\<open>*\<close> and \<^verbatim>\<open>/\<close> on points.\<close>

definition plus_p :: "Point \<Rightarrow> Point \<Rightarrow> Point" where
  "plus_p a b = \<lparr>px = px a + px b, py = py a + py b, pz = pz a + pz b\<rparr>"

definition minus_p :: "Point \<Rightarrow> Point \<Rightarrow> Point" where
  "minus_p a b = \<lparr>px = px a - px b, py = py a - py b, pz = pz a - pz b\<rparr>"

definition times_p :: "Point \<Rightarrow> real \<Rightarrow> Point" where
  "times_p a s = \<lparr>px = px a * s, py = py a * s, pz = pz a * s\<rparr>"

definition divide_p :: "Point \<Rightarrow> real \<Rightarrow> Point" where
  "divide_p a s = \<lparr>px = px a / s, py = py a / s, pz = pz a / s\<rparr>"

definition lat_lon_to_xyz :: "real \<Rightarrow> real \<Rightarrow> Point" where
  "lat_lon_to_xyz lat_deg lon_deg =
     (let lat_rad = lat_deg * M_PI / 180;
          lon_rad = lon_deg * M_PI / 180
      in \<lparr>px = R_earth * cos lat_rad * cos lon_rad,
          py = R_earth * cos lat_rad * sin lon_rad,
          pz = R_earth * sin lat_rad\<rparr>)"

definition dot_p :: "Point \<Rightarrow> Point \<Rightarrow> real" where
  "dot_p p1 p2 = px p1 * px p2 + py p1 * py p2 + pz p1 * pz p2"

definition cross_p :: "Point \<Rightarrow> Point \<Rightarrow> Point" where
  "cross_p p1 p2 = \<lparr>px = py p1 * pz p2 - pz p1 * py p2,
                   py = pz p1 * px p2 - px p1 * pz p2,
                   pz = px p1 * py p2 - py p1 * px p2\<rparr>"

definition magnitude :: "Point \<Rightarrow> real" where
  "magnitude p = sqrt (dot_p p p)"

definition normalize_p :: "Point \<Rightarrow> Point" where
  "normalize_p p =
     (let mag = magnitude p
      in if mag < EPS then \<lparr>px = 0, py = 0, pz = 0\<rparr> else divide_p p mag)"

text \<open>
  \<^verbatim>\<open>max(-1.0, min(1.0, d))\<close>. An \<^verbatim>\<open>acos\<close> call whose argument is this clamp is written
  \<open>arccos (clamp_pm1 d)\<close>: the argument is in the domain.
\<close>

definition clamp_pm1 :: "real \<Rightarrow> real" where
  "clamp_pm1 d = max (- 1) (min 1 d)"

definition dist_xyz :: "Point \<Rightarrow> Point \<Rightarrow> real" where
  "dist_xyz p1 p2 =
     (let u1 = normalize_p p1;
          u2 = normalize_p p2;
          d = dot_p u1 u2;
          d = clamp_pm1 d;
          angle_rad = arccos d
      in angle_rad * R_earth)"

definition point_at_angle_on_great_circle :: "Point \<Rightarrow> Point \<Rightarrow> real \<Rightarrow> Point" where
  "point_at_angle_on_great_circle u v angle_from_u =
     (let u_norm = normalize_p u;
          v_norm = normalize_p v;
          angle_uv = arccos (clamp_pm1 (dot_p u_norm v_norm))
      in
      if angle_uv < EPS then u
      else
        let v_ortho_norm = normalize_p (minus_p v_norm (times_p u_norm (dot_p u_norm v_norm)))
        in plus_p (times_p u_norm (cos angle_from_u)) (times_p v_ortho_norm (sin angle_from_u)))"

definition is_on_arc :: "Point \<Rightarrow> Point \<Rightarrow> Point \<Rightarrow> bool" where
  "is_on_arc u v p =
     (let dist_uv = dist_xyz u v;
          dist_up = dist_xyz u p;
          dist_pv = dist_xyz p v
      in \<bar>dist_up + dist_pv - dist_uv\<bar> < EPS)"

definition get_arc_parameter :: "Point \<Rightarrow> Point \<Rightarrow> Point \<Rightarrow> real" where
  "get_arc_parameter u v p =
     (let dist_uv = dist_xyz u v
      in if dist_uv < EPS then 0
         else let dist_up = dist_xyz u p in dist_up / dist_uv)"

section \<open>main.cpp: the circle intersector\<close>

text \<open>
  The quotient of two long doubles: a number, an infinity when a nonzero number is
  divided by zero, NaN for \<open>0 / 0\<close>. The divisors below are cosines of angles in
  \<open>[0, pi / 2]\<close>, so a zero divisor is \<open>+0\<close>.
\<close>

datatype fval = Num real | PosInf | NegInf | NaN

definition fdiv :: "real \<Rightarrow> real \<Rightarrow> fval" where
  "fdiv a b =
     (if b \<noteq> 0 then Num (a / b)
      else if 0 < a then PosInf
      else if a < 0 then NegInf
      else NaN)"

text \<open>
  Lines 135 to 140: \<^verbatim>\<open>cos_beta_arg\<close> as it is passed to \<^verbatim>\<open>acos\<close>. The clamp runs only
  when the quotient is beyond \<open>1 + EPS\<close> or below \<open>- 1 - EPS\<close>; every comparison with
  NaN is false.
\<close>

definition cos_beta_arg :: "real \<Rightarrow> real \<Rightarrow> fval" where
  "cos_beta_arg r_ang d_ang =
     (case fdiv (cos r_ang) (cos (d_ang / 2)) of
        Num c \<Rightarrow> if c > 1 + EPS \<or> c < - 1 - EPS then Num (clamp_pm1 c) else Num c
      | PosInf \<Rightarrow> Num 1
      | NegInf \<Rightarrow> Num (- 1)
      | NaN \<Rightarrow> NaN)"

text \<open>Line 141: \<^verbatim>\<open>beta\<close>, with \<open>None\<close> for NaN.\<close>

definition beta_of :: "real \<Rightarrow> real \<Rightarrow> real option" where
  "beta_of r_ang d_ang =
     (case cos_beta_arg r_ang d_ang of Num c \<Rightarrow> acos_c c | _ \<Rightarrow> None)"

text \<open>
  Lines 117 to 160. An element \<open>None\<close> of the result is a point whose three coordinates
  are NaN: when \<^verbatim>\<open>beta\<close> is NaN so are \<^verbatim>\<open>p1_norm\<close> and \<^verbatim>\<open>p2_norm\<close>, the first is pushed,
  and \<^verbatim>\<open>beta > EPS\<close> is false.
\<close>

definition get_small_circle_intersections :: "Point \<Rightarrow> Point \<Rightarrow> real \<Rightarrow> Point option list" where
  "get_small_circle_intersections center1 center2 R_sphere =
     (let c1_norm = normalize_p center1;
          c2_norm = normalize_p center2;
          r_ang = R_sphere / R_earth;
          d_ang = arccos (clamp_pm1 (dot_p c1_norm c2_norm))
      in
      if d_ang > 2 * r_ang + EPS then []
      else if d_ang < EPS then []
      else
        (case beta_of r_ang d_ang of
           None \<Rightarrow> [None]
         | Some beta \<Rightarrow>
             let m_norm = point_at_angle_on_great_circle c1_norm c2_norm (d_ang / 2);
                 ortho_m_norm = normalize_p (cross_p m_norm (minus_p c1_norm c2_norm));
                 p1_norm = plus_p (times_p m_norm (cos beta)) (times_p ortho_m_norm (sin beta));
                 p2_norm = minus_p (times_p m_norm (cos beta)) (times_p ortho_m_norm (sin beta))
             in
             [Some \<lparr>px = px p1_norm * R_earth, py = py p1_norm * R_earth, pz = pz p1_norm * R_earth\<rparr>] @
             (if beta > EPS
              then [Some \<lparr>px = px p2_norm * R_earth, py = py p2_norm * R_earth, pz = pz p2_norm * R_earth\<rparr>]
              else [])))"

section \<open>main.cpp: coverage of one arc\<close>

text \<open>\<^verbatim>\<open>std::unique\<close> with the predicate \<^verbatim>\<open>abs(a - b) < EPS\<close>: an element is dropped when
  it is that close to the last element kept.\<close>

fun unique_from :: "real \<Rightarrow> real list \<Rightarrow> real list" where
  "unique_from kept [] = []"
| "unique_from kept (b # bs) =
     (if \<bar>kept - b\<bar> < EPS then unique_from kept bs else b # unique_from b bs)"

definition unique_eps :: "real list \<Rightarrow> real list" where
  "unique_eps xs = (case xs of [] \<Rightarrow> [] | a # as \<Rightarrow> a # unique_from a as)"

text \<open>Lines 250 to 264: the loop over the neighbouring critical parameters.\<close>

fun midpoint_intervals ::
  "Point \<Rightarrow> Point \<Rightarrow> Point \<Rightarrow> real \<Rightarrow> real \<Rightarrow> real list \<Rightarrow> (real \<times> real) list" where
  "midpoint_intervals u v k_center R_sphere angle_uv (t_start # t_end # ts) =
     (if t_end - t_start < EPS then []
      else
        let t_mid = (t_start + t_end) / 2;
            p_mid = point_at_angle_on_great_circle u v (t_mid * angle_uv)
        in if dist_xyz p_mid k_center \<le> R_sphere + EPS then [(t_start, t_end)] else []) @
     midpoint_intervals u v k_center R_sphere angle_uv (t_end # ts)"
| "midpoint_intervals u v k_center R_sphere angle_uv ts = []"

text \<open>Lines 223 to 231 and 237 to 243: the whole arc, judged at its midpoint.\<close>

definition whole_arc_by_midpoint :: "Point \<Rightarrow> Point \<Rightarrow> Point \<Rightarrow> real \<Rightarrow> real \<Rightarrow> (real \<times> real) list" where
  "whole_arc_by_midpoint u v k_center R_sphere angle_uv =
     (let mid_t_angle = angle_uv / 2;
          p_mid = point_at_angle_on_great_circle u v mid_t_angle
      in if dist_xyz p_mid k_center \<le> R_sphere + EPS then [(0, 1)] else [])"

text \<open>Lines 164 to 267.\<close>

definition get_covered_intervals :: "Point \<Rightarrow> Point \<Rightarrow> Point \<Rightarrow> real \<Rightarrow> (real \<times> real) list" where
  "get_covered_intervals u v k_center R_sphere =
     (let r_ang = R_sphere / R_earth;
          u_norm = normalize_p u;
          v_norm = normalize_p v;
          k_norm = normalize_p k_center;
          angle_uv = arccos (clamp_pm1 (dot_p u_norm v_norm))
      in
      if angle_uv < EPS then
        (if dist_xyz u k_center \<le> R_sphere + EPS then [(0, 1)] else [])
      else
        let gc_normal = normalize_p (cross_p u_norm v_norm);
            k_proj_norm = minus_p k_norm (times_p gc_normal (dot_p k_norm gc_normal));
            k_proj_norm = normalize_p k_proj_norm;
            d_k_to_plane_ang = arccos (clamp_pm1 \<bar>dot_p k_norm gc_normal\<bar>)
        in
        if d_k_to_plane_ang \<le> r_ang + EPS then
          (if \<bar>d_k_to_plane_ang - r_ang\<bar> < EPS then
             midpoint_intervals u v k_center R_sphere angle_uv (unique_eps (sort [0, 1]))
           else
             (case fdiv (cos r_ang) (cos d_k_to_plane_ang) of
                Num cos_alpha_arg \<Rightarrow>
                  if cos_alpha_arg \<ge> - 1 - EPS \<and> cos_alpha_arg \<le> 1 + EPS then
                    let alpha = arccos (clamp_pm1 cos_alpha_arg);
                        ortho_k_proj_norm = normalize_p (cross_p gc_normal k_proj_norm);
                        p1_norm_gc = plus_p (times_p k_proj_norm (cos alpha))
                                            (times_p ortho_k_proj_norm (sin alpha));
                        p2_norm_gc = minus_p (times_p k_proj_norm (cos alpha))
                                             (times_p ortho_k_proj_norm (sin alpha));
                        p1_gc = \<lparr>px = px p1_norm_gc * R_earth, py = py p1_norm_gc * R_earth,
                                 pz = pz p1_norm_gc * R_earth\<rparr>;
                        p2_gc = \<lparr>px = px p2_norm_gc * R_earth, py = py p2_norm_gc * R_earth,
                                 pz = pz p2_norm_gc * R_earth\<rparr>;
                        critical_params =
                          [0, 1] @
                          (if is_on_arc u v p1_gc then [get_arc_parameter u v p1_gc] else []) @
                          (if alpha > EPS \<and> is_on_arc u v p2_gc
                           then [get_arc_parameter u v p2_gc] else [])
                    in midpoint_intervals u v k_center R_sphere angle_uv
                         (unique_eps (sort critical_params))
                  else whole_arc_by_midpoint u v k_center R_sphere angle_uv
              | _ \<Rightarrow> whole_arc_by_midpoint u v k_center R_sphere angle_uv))
        else whole_arc_by_midpoint u v k_center R_sphere angle_uv)"

text \<open>Lines 271 to 286, \<open>back\<close> being \<^verbatim>\<open>merged.back()\<close>.\<close>

fun merge_from :: "real \<times> real \<Rightarrow> (real \<times> real) list \<Rightarrow> (real \<times> real) list" where
  "merge_from back [] = [back]"
| "merge_from back (iv # ivs) =
     (if fst iv \<le> snd back + EPS
      then merge_from (fst back, max (snd back) (snd iv)) ivs
      else back # merge_from iv ivs)"

definition merge_intervals :: "(real \<times> real) list \<Rightarrow> (real \<times> real) list" where
  "merge_intervals intervals =
     (case sort intervals of [] \<Rightarrow> [] | iv # ivs \<Rightarrow> merge_from iv ivs)"

text \<open>Lines 304 to 311.\<close>

fun covers_unit :: "real \<Rightarrow> (real \<times> real) list \<Rightarrow> bool" where
  "covers_unit current_t [] = (\<not> current_t < 1 - EPS)"
| "covers_unit current_t (iv # ivs) =
     (if fst iv > current_t + EPS then False
      else covers_unit (max current_t (snd iv)) ivs)"

text \<open>Lines 289 to 312.\<close>

definition is_arc_safe :: "Point \<Rightarrow> Point \<Rightarrow> Point list \<Rightarrow> real \<Rightarrow> bool" where
  "is_arc_safe u v airports R_sphere =
     (let dist_uv = dist_xyz u v in
      if dist_uv < EPS then True
      else
        let all_intervals = concat (map (\<lambda>airport_loc. get_covered_intervals u v airport_loc R_sphere) airports);
            merged = merge_intervals all_intervals
        in if merged = [] then False else covers_unit 0 merged)"

section \<open>main.cpp: the distance matrices\<close>

text \<open>
  An entry of \<^verbatim>\<open>adj_aux\<close> or \<^verbatim>\<open>current_adj_refuel\<close>: a number, or the infinity \<^verbatim>\<open>INF\<close>
  (here \<open>PInf\<close>). A sum with an infinite operand is infinite, and the infinity is
  above every number.
\<close>

datatype ext = Fin real | PInf

instantiation ext :: "{linorder, ordered_comm_monoid_add}"
begin

definition zero_ext :: ext where
  "zero_ext = Fin 0"

fun plus_ext :: "ext \<Rightarrow> ext \<Rightarrow> ext" where
  "plus_ext (Fin a) (Fin b) = Fin (a + b)"
| "plus_ext a b = PInf"

fun less_eq_ext :: "ext \<Rightarrow> ext \<Rightarrow> bool" where
  "less_eq_ext (Fin a) (Fin b) = (a \<le> b)"
| "less_eq_ext a PInf = True"
| "less_eq_ext PInf (Fin b) = False"

definition less_ext :: "ext \<Rightarrow> ext \<Rightarrow> bool" where
  "less_ext a b = (a \<le> b \<and> \<not> b \<le> a)"

instance
proof
  fix p q r :: ext
  show "p \<le> q \<or> q \<le> p"
    by (cases p; cases q) auto
  show "p \<le> p"
    by (cases p) simp_all
  show "p = q" if "p \<le> q" and "q \<le> p"
    using that by (cases p; cases q) simp_all
  show "p \<le> r" if "p \<le> q" and "q \<le> r"
    using that by (cases p; cases q; cases r) simp_all
  show "(p < q) = (p \<le> q \<and> \<not> q \<le> p)"
    by (simp add: less_ext_def)
  show "r + p \<le> r + q" if "p \<le> q"
    using that by (cases p; cases q; cases r) simp_all
  show "0 + p = p"
    by (cases p) (simp_all add: zero_ext_def)
  show "p + q = q + p"
    by (cases p; cases q) simp_all
  show "p + q + r = p + (q + r)"
    by (cases p; cases q; cases r) simp_all
qed

end

section \<open>Floyd-Warshall in place\<close>

text \<open>
  Both programs run the triple loop in place. The loop is stated once, for any
  linearly ordered commutative monoid, and shown to compute in round \<open>k\<close> the step
  \<open>min (D i j) (D i k + D k j)\<close> from the matrix as it was when the round began.
\<close>

definition g_relax :: "nat \<Rightarrow> nat \<Rightarrow> (nat \<Rightarrow> nat \<Rightarrow> 'a::{linorder, ordered_comm_monoid_add}) \<Rightarrow> nat \<Rightarrow> nat \<Rightarrow> nat \<Rightarrow> 'a" where
  "g_relax k i D j = D(i := (D i)(j := min (D i j) (D i k + D k j)))"

definition g_row :: "nat \<Rightarrow> nat \<Rightarrow> (nat \<Rightarrow> nat \<Rightarrow> 'a::{linorder, ordered_comm_monoid_add}) \<Rightarrow> nat \<Rightarrow> nat \<Rightarrow> nat \<Rightarrow> 'a" where
  "g_row n k D i = fold (\<lambda>j D. g_relax k i D j) [0..<n] D"

definition g_iter :: "nat \<Rightarrow> nat \<Rightarrow> (nat \<Rightarrow> nat \<Rightarrow> 'a::{linorder, ordered_comm_monoid_add}) \<Rightarrow> nat \<Rightarrow> nat \<Rightarrow> 'a" where
  "g_iter n k D = fold (\<lambda>i D. g_row n k D i) [0..<n] D"

definition g_fw :: "nat \<Rightarrow> (nat \<Rightarrow> nat \<Rightarrow> 'a::{linorder, ordered_comm_monoid_add}) \<Rightarrow> nat \<Rightarrow> nat \<Rightarrow> 'a" where
  "g_fw n D = fold (\<lambda>k D. g_iter n k D) [0..<n] D"

definition fw_step :: "nat \<Rightarrow> nat \<Rightarrow> (nat \<Rightarrow> nat \<Rightarrow> 'a::{linorder, ordered_comm_monoid_add}) \<Rightarrow> nat \<Rightarrow> nat \<Rightarrow> 'a" where
  "fw_step n k D = (\<lambda>i j. if i < n \<and> j < n then min (D i j) (D i k + D k j) else D i j)"

lemma g_row_prefix:
  fixes D :: "nat \<Rightarrow> nat \<Rightarrow> 'a::{linorder, ordered_comm_monoid_add}"
  assumes "D k k = 0"
  shows "fold (\<lambda>j D. g_relax k i D j) [0..<m] D =
         (\<lambda>a b. if a = i \<and> b < m then min (D a b) (D a k + D k b) else D a b)"
proof (induction m)
  case 0
  show ?case by simp
next
  case (Suc m)
  let ?E = "\<lambda>a b. if a = i \<and> b < m then min (D a b) (D a k + D k b) else D a b"
  have Eik: "?E i k = D i k" using assms by simp
  have Ekm: "?E k m = D k m" by simp
  have Eim: "?E i m = D i m" by simp
  have "fold (\<lambda>j D. g_relax k i D j) [0..<Suc m] D = g_relax k i ?E m"
    using Suc.IH by simp
  also have "\<dots> = (\<lambda>a b. if a = i \<and> b < Suc m then min (D a b) (D a k + D k b) else D a b)"
    unfolding g_relax_def Eik Ekm Eim by (auto simp: fun_eq_iff less_Suc_eq)
  finally show ?case .
qed

lemma g_row_eq:
  fixes D :: "nat \<Rightarrow> nat \<Rightarrow> 'a::{linorder, ordered_comm_monoid_add}"
  assumes "D k k = 0"
  shows "g_row n k D i = (\<lambda>a b. if a = i \<and> b < n then min (D a b) (D a k + D k b) else D a b)"
  unfolding g_row_def using assms by (rule g_row_prefix)

lemma g_iter_prefix:
  fixes D :: "nat \<Rightarrow> nat \<Rightarrow> 'a::{linorder, ordered_comm_monoid_add}"
  assumes "D k k = 0"
  shows "fold (\<lambda>i D. g_row n k D i) [0..<m] D =
         (\<lambda>a b. if a < m \<and> b < n then min (D a b) (D a k + D k b) else D a b)"
proof (induction m)
  case 0
  show ?case by simp
next
  case (Suc m)
  let ?E = "\<lambda>a b. if a < m \<and> b < n then min (D a b) (D a k + D k b) else D a b"
  have Ekk: "?E k k = 0" using assms by simp
  have Ek: "?E k b = D k b" for b using assms by simp
  have Em: "?E m b = D m b" for b by simp
  have "fold (\<lambda>i D. g_row n k D i) [0..<Suc m] D = g_row n k ?E m"
    using Suc.IH by simp
  also have "\<dots> = (\<lambda>a b. if a = m \<and> b < n then min (?E a b) (?E a k + ?E k b) else ?E a b)"
    using Ekk by (rule g_row_eq)
  also have "\<dots> = (\<lambda>a b. if a < Suc m \<and> b < n then min (D a b) (D a k + D k b) else D a b)"
    unfolding Ek by (auto simp: fun_eq_iff less_Suc_eq)
  finally show ?case .
qed

lemma g_iter_eq:
  fixes D :: "nat \<Rightarrow> nat \<Rightarrow> 'a::{linorder, ordered_comm_monoid_add}"
  assumes "D k k = 0"
  shows "g_iter n k D = fw_step n k D"
  unfolding g_iter_def fw_step_def using assms by (rule g_iter_prefix)


definition fw_inv :: "nat \<Rightarrow> nat \<Rightarrow> (nat \<Rightarrow> nat \<Rightarrow> 'a::{linorder, ordered_comm_monoid_add}) \<Rightarrow> bool" where
  "fw_inv n K D \<longleftrightarrow>
     (\<forall>i<n. D i i = 0) \<and>
     (\<forall>i<n. \<forall>j<n. 0 \<le> D i j) \<and>
     (\<forall>i<n. \<forall>j<n. D i j = D j i) \<and>
     (\<forall>i<n. \<forall>j<n. \<forall>m<K. m < n \<longrightarrow> D i j \<le> D i m + D m j)"

lemma fw_step_inv:
  fixes D :: "nat \<Rightarrow> nat \<Rightarrow> 'a::{linorder, ordered_comm_monoid_add}"
  assumes k: "k < n" and inv: "fw_inv n k D"
  shows "fw_inv n (Suc k) (fw_step n k D)"
proof -
  let ?E = "fw_step n k D"
  have diag: "D i i = 0" if "i < n" for i using inv that unfolding fw_inv_def by blast
  have nonneg: "0 \<le> D i j" if "i < n" "j < n" for i j using inv that unfolding fw_inv_def by blast
  have sym: "D i j = D j i" if "i < n" "j < n" for i j using inv that unfolding fw_inv_def by blast
  have tri: "D i j \<le> D i m + D m j" if "i < n" "j < n" "m < k" for i j m
    using inv that k less_trans [of m k n] unfolding fw_inv_def by blast
  have E: "?E i j = min (D i j) (D i k + D k j)" if "i < n" "j < n" for i j
    using that by (simp add: fw_step_def)
  have Eik: "?E i k = D i k" if "i < n" for i
    using that k diag [OF k] by (simp add: fw_step_def)
  have Ekj: "?E k j = D k j" if "j < n" for j
    using that k diag [OF k] by (simp add: fw_step_def)
  have le: "?E i j \<le> D i j" and le2: "?E i j \<le> D i k + D k j" if "i < n" "j < n" for i j
    using that by (simp_all add: E)
  have c1: "\<forall>i<n. ?E i i = 0"
  proof (intro allI impI)
    fix i assume i: "i < n"
    have "0 \<le> D i k + D k i" using nonneg [OF i k] nonneg [OF k i] by (rule add_nonneg_nonneg)
    then show "?E i i = 0" using i diag [OF i] by (simp add: E min_def)
  qed
  have c2: "\<forall>i<n. \<forall>j<n. 0 \<le> ?E i j"
  proof (intro allI impI)
    fix i j assume i: "i < n" and j: "j < n"
    have "0 \<le> D i k + D k j" using nonneg [OF i k] nonneg [OF k j] by (rule add_nonneg_nonneg)
    then show "0 \<le> ?E i j" using nonneg [OF i j] by (simp add: E i j)
  qed
  have c3: "\<forall>i<n. \<forall>j<n. ?E i j = ?E j i"
  proof (intro allI impI)
    fix i j assume i: "i < n" and j: "j < n"
    have "D i k + D k j = D j k + D k i"
      using sym [OF i k] sym [OF k j] by (simp add: add.commute)
    then show "?E i j = ?E j i" using sym [OF i j] by (simp add: E i j)
  qed
  have c4: "\<forall>i<n. \<forall>j<n. \<forall>m<Suc k. m < n \<longrightarrow> ?E i j \<le> ?E i m + ?E m j"
  proof (intro allI impI)
    fix i j m assume i: "i < n" and j: "j < n" and m: "m < Suc k" and mn: "m < n"
    show "?E i j \<le> ?E i m + ?E m j"
    proof (cases "m = k")
      case True
      then show ?thesis using le2 [OF i j] Eik [OF i] Ekj [OF j] by simp
    next
      case False
      then have mk: "m < k" using m by simp
      have A: "?E i j \<le> D i m + D m j"
        using le [OF i j] tri [OF i j mk] by (rule order_trans)
      have B: "?E i j \<le> (D i k + D k m) + D m j"
      proof -
        have "D i k + D k j \<le> D i k + (D k m + D m j)"
          using tri [OF k j mk] by (rule add_left_mono)
        then show ?thesis using le2 [OF i j] by (simp add: add.assoc)
      qed
      have C: "?E i j \<le> D i m + (D m k + D k j)"
      proof -
        have "D i k + D k j \<le> (D i m + D m k) + D k j"
          using tri [OF i k mk] by (rule add_right_mono)
        then show ?thesis using le2 [OF i j] by (simp add: add.assoc)
      qed
      have D4: "?E i j \<le> (D i k + D k m) + (D m k + D k j)"
      proof -
        have "D i k \<le> D i k + D k m" using nonneg [OF k mn] by (rule add_increasing2) simp
        moreover have "D k j \<le> D m k + D k j" using nonneg [OF mn k] by (rule add_increasing) simp
        ultimately have "D i k + D k j \<le> (D i k + D k m) + (D m k + D k j)" by (rule add_mono)
        then show ?thesis using le2 [OF i j] by (rule order_trans [rotated])
      qed
      have h1: "?E i m = D i m \<or> ?E i m = D i k + D k m"
        by (simp add: E i mn min_def)
      have h2: "?E m j = D m j \<or> ?E m j = D m k + D k j"
        by (simp add: E j mn min_def)
      from h1 h2 show ?thesis
        by (elim disjE) (use A B C D4 in simp_all)
    qed
  qed
  show ?thesis unfolding fw_inv_def using c1 c2 c3 c4 by blast
qed

lemma g_fw_prefix_inv:
  fixes D :: "nat \<Rightarrow> nat \<Rightarrow> 'a::{linorder, ordered_comm_monoid_add}"
  assumes "fw_inv n 0 D" and "m \<le> n"
  shows "fw_inv n m (fold (\<lambda>k D. g_iter n k D) [0..<m] D)"
  using assms(2)
proof (induction m)
  case 0
  show ?case using assms(1) by simp
next
  case (Suc m)
  let ?E = "fold (\<lambda>k D. g_iter n k D) [0..<m] D"
  have inv: "fw_inv n m ?E" and m: "m < n" using Suc by simp_all
  have "?E m m = 0" using inv m unfolding fw_inv_def by blast
  then have "g_iter n m ?E = fw_step n m ?E" by (rule g_iter_eq)
  then show ?case using fw_step_inv [OF m inv] by simp
qed

lemma g_fw_inv:
  fixes D :: "nat \<Rightarrow> nat \<Rightarrow> 'a::{linorder, ordered_comm_monoid_add}"
  assumes "fw_inv n 0 D"
  shows "fw_inv n n (g_fw n D)"
  unfolding g_fw_def using assms by (rule g_fw_prefix_inv) simp


text \<open>main.cpp, lines 390 to 398, and again lines 426 to 434.\<close>

definition fw_relax :: "nat \<Rightarrow> nat \<Rightarrow> (nat \<Rightarrow> nat \<Rightarrow> ext) \<Rightarrow> nat \<Rightarrow> nat \<Rightarrow> nat \<Rightarrow> ext" where
  "fw_relax k i adj j =
     (if adj i k \<noteq> PInf \<and> adj k j \<noteq> PInf
      then adj(i := (adj i)(j := min (adj i j) (adj i k + adj k j)))
      else adj)"

definition floyd_cpp :: "nat \<Rightarrow> (nat \<Rightarrow> nat \<Rightarrow> ext) \<Rightarrow> nat \<Rightarrow> nat \<Rightarrow> ext" where
  "floyd_cpp V adj =
     fold (\<lambda>k adj. fold (\<lambda>i adj. fold (\<lambda>j adj. fw_relax k i adj j) [0..<V] adj) [0..<V] adj)
          [0..<V] adj"

lemma ext_le_PInf [simp]: "(a::ext) \<le> PInf"
  by (cases a) simp_all

lemma ext_min_PInf [simp]: "min (a::ext) PInf = a"
  by (simp add: min_def)

lemma ext_plus_PInf [simp]: "(a::ext) + PInf = PInf" "PInf + a = PInf"
  by (cases a; simp)+

lemma fw_relax_eq: "fw_relax k i adj j = g_relax k i adj j"
  by (auto simp: fw_relax_def g_relax_def)

lemma floyd_cpp_eq: "floyd_cpp V adj = g_fw V adj"
  by (simp add: floyd_cpp_def g_fw_def g_iter_def g_row_def fw_relax_eq)

lemma relax_eq: "relax k i D j = g_relax k i D j"
  by (auto simp: relax_def g_relax_def Let_def min_def fun_upd_idem)

definition bounded :: "nat \<Rightarrow> (nat \<Rightarrow> nat \<Rightarrow> real) \<Rightarrow> bool" where
  "bounded n D \<longleftrightarrow> (\<forall>i<n. \<forall>j<n. 0 \<le> D i j \<and> D i j \<le> INF_c)"

lemma floyd_row_eq:
  assumes b: "bounded n D" and d: "D k k = 0" and i: "i < n" and k: "k < n"
  shows "floyd_row n k D i = g_row n k D i"
proof (cases "D i k \<ge> INF_c")
  case False
  then show ?thesis by (simp add: floyd_row_def g_row_def relax_eq)
next
  case True
  have "min (D i b) (D i k + D k b) = D i b" if "b < n" for b
  proof -
    have "D i b \<le> INF_c" "0 \<le> D k b" using b i k that by (auto simp: bounded_def)
    then show ?thesis using True by (simp add: min_def)
  qed
  then have "g_row n k D i = D"
    unfolding g_row_eq [of D k, OF d] by (auto simp: fun_eq_iff)
  then show ?thesis using True by (simp add: floyd_row_def)
qed

lemma fw_step_bounded:
  assumes b: "bounded n D" and k: "k < n"
  shows "bounded n (fw_step n k D)"
  unfolding bounded_def
proof (intro allI impI)
  fix i j assume i: "i < n" and j: "j < n"
  have "0 \<le> D i j" "D i j \<le> INF_c" "0 \<le> D i k" "0 \<le> D k j"
    using b i j k by (auto simp: bounded_def)
  then show "0 \<le> fw_step n k D i j \<and> fw_step n k D i j \<le> INF_c"
    using i j by (simp add: fw_step_def min_def)
qed

lemma floyd_iter_eq:
  assumes b: "bounded n D" and d: "D k k = 0" and k: "k < n" and m: "m \<le> n"
  shows "fold (\<lambda>i D. floyd_row n k D i) [0..<m] D = fold (\<lambda>i D. g_row n k D i) [0..<m] D"
  using m
proof (induction m)
  case 0
  show ?case by simp
next
  case (Suc m)
  let ?E = "fold (\<lambda>i D. g_row n k D i) [0..<m] D"
  have E: "?E = (\<lambda>a b. if a < m \<and> b < n then min (D a b) (D a k + D k b) else D a b)"
    using d by (rule g_iter_prefix)
  have Ekk: "?E k k = 0" unfolding E using d by simp
  have Eb: "bounded n ?E"
    unfolding bounded_def
  proof (intro allI impI)
    fix i j assume i: "i < n" and j: "j < n"
    have "0 \<le> D i j" "D i j \<le> INF_c" "0 \<le> D i k" "0 \<le> D k j"
      using b i j k by (auto simp: bounded_def)
    then show "0 \<le> ?E i j \<and> ?E i j \<le> INF_c"
      unfolding E by (simp add: min_def)
  qed
  have mn: "m < n" using Suc.prems by simp
  have "fold (\<lambda>i D. floyd_row n k D i) [0..<Suc m] D = floyd_row n k ?E m"
    using Suc by simp
  also have "\<dots> = g_row n k ?E m" using Eb Ekk mn k by (rule floyd_row_eq)
  finally show ?case by simp
qed

lemma floyd_warshall_prefix:
  assumes inv: "fw_inv n 0 D" and b: "bounded n D" and m: "m \<le> n"
  shows "fold (\<lambda>k D. fold (\<lambda>i D. floyd_row n k D i) [0..<n] D) [0..<m] D =
         fold (\<lambda>k D. g_iter n k D) [0..<m] D \<and>
         bounded n (fold (\<lambda>k D. g_iter n k D) [0..<m] D)"
  using m
proof (induction m)
  case 0
  show ?case using b by simp
next
  case (Suc m)
  define E where "E = fold (\<lambda>k D. g_iter n k D) [0..<m] D"
  have mn: "m < n" and ml: "m \<le> n" using Suc.prems by simp_all
  have IH: "fold (\<lambda>k D. fold (\<lambda>i D. floyd_row n k D i) [0..<n] D) [0..<m] D = E"
    and Eb: "bounded n E" using Suc.IH ml by (simp_all add: E_def)
  have Einv: "fw_inv n m E" unfolding E_def using inv ml by (rule g_fw_prefix_inv)
  have Emm: "E m m = 0" using Einv mn unfolding fw_inv_def by blast
  have step: "fold (\<lambda>i D. floyd_row n m D i) [0..<n] E = g_iter n m E"
    unfolding g_iter_def using Eb Emm mn by (rule floyd_iter_eq) simp
  have "g_iter n m E = fw_step n m E" using Emm by (rule g_iter_eq)
  then have gb: "bounded n (g_iter n m E)" using fw_step_bounded [OF Eb mn] by simp
  have l: "fold (\<lambda>k D. fold (\<lambda>i D. floyd_row n k D i) [0..<n] D) [0..<Suc m] D = g_iter n m E"
    using IH step by simp
  have r: "fold (\<lambda>k D. g_iter n k D) [0..<Suc m] D = g_iter n m E"
    by (simp add: E_def)
  show ?case unfolding l r using gb by simp
qed

lemma floyd_warshall_eq:
  assumes "fw_inv n 0 D" and "bounded n D"
  shows "floyd_warshall n D = g_fw n D"
  unfolding floyd_warshall_def g_fw_def
  using floyd_warshall_prefix [OF assms, of n] by simp


text \<open>
  main.cpp, lines 356 to 387. The vertex list is the content of the vertex set in its
  iteration order; it is a parameter here. Each pair \<open>i < j\<close> is visited once and
  writes \<^verbatim>\<open>adj_aux[i][j]\<close> and \<^verbatim>\<open>adj_aux[j][i]\<close>.
\<close>

definition adj_aux_init :: "Point list \<Rightarrow> Point list \<Rightarrow> real \<Rightarrow> nat \<Rightarrow> nat \<Rightarrow> ext" where
  "adj_aux_init vertices airports_xyz R i j =
     (if i = j then Fin 0
      else
        let a = min i j;
            b = max i j;
            d_ij = dist_xyz (vertices ! a) (vertices ! b);
            safe = (if d_ij < EPS then True
                    else if \<bar>d_ij - R_earth * M_PI\<bar> < EPS
                    then is_arc_safe (vertices ! a) (vertices ! b) airports_xyz R
                    else is_arc_safe (vertices ! a) (vertices ! b) airports_xyz R)
        in if safe then Fin d_ij else PInf)"

definition adj_aux :: "Point list \<Rightarrow> Point list \<Rightarrow> real \<Rightarrow> nat \<Rightarrow> nat \<Rightarrow> ext" where
  "adj_aux vertices airports_xyz R =
     floyd_cpp (length vertices) (adj_aux_init vertices airports_xyz R)"

text \<open>main.c, lines 81 to 222: the matrix \<^verbatim>\<open>D\<close> of one scenario after the all-pairs pass.\<close>

definition scenario_D :: "int \<Rightarrow> Vec list \<Rightarrow> nat \<Rightarrow> nat \<Rightarrow> real" where
  "scenario_D R airports =
     (let alpha = real_of_int R / EARTH_R;
          cosA = cos alpha;
          V = build_nodes alpha airports
      in floyd_warshall (length V) (init_D airports cosA V))"

lemma clamp_pm1_range: "- 1 \<le> clamp_pm1 d \<and> clamp_pm1 d \<le> 1"
  by (simp add: clamp_pm1_def)

lemma dist_xyz_nonneg: "0 \<le> dist_xyz p1 p2"
  using clamp_pm1_range arccos_lbound by (simp add: dist_xyz_def Let_def R_earth_def)

lemma adj_aux_init_inv: "fw_inv n 0 (adj_aux_init vertices airports_xyz R)"
  unfolding fw_inv_def
proof (intro conjI allI impI)
  fix i j
  show "adj_aux_init vertices airports_xyz R i i = 0"
    by (simp add: adj_aux_init_def zero_ext_def)
  show "0 \<le> adj_aux_init vertices airports_xyz R i j"
    using dist_xyz_nonneg by (simp add: adj_aux_init_def zero_ext_def Let_def)
  show "adj_aux_init vertices airports_xyz R i j = adj_aux_init vertices airports_xyz R j i"
    by (simp add: adj_aux_init_def min.commute max.commute)
qed simp

lemma clamp1_range: "- 1 \<le> clamp1 c \<and> clamp1 c \<le> 1"
  by (simp add: clamp1_def)

lemma pair_edge_Some:
  assumes "pair_edge airports cosA Va Vb = Some d"
  shows "0 \<le> d \<and> d \<le> INF_c"
proof -
  obtain th where th: "acos_c (clamp1 (dot Va Vb)) = Some th" and lo: "\<not> th < 1 / 10 ^ 12"
    and d: "d = th * EARTH_R"
    using assms by (auto simp: pair_edge_def Let_def split: option.splits if_splits)
  have "th = arccos (clamp1 (dot Va Vb))" using th by (auto simp: acos_c_def split: if_splits)
  then have "th \<le> pi" using clamp1_range arccos_ubound by simp
  then have hi: "th \<le> 4" using pi_less_4 by simp
  have "0 \<le> th" using lo by simp
  then have "0 \<le> d" by (simp add: d EARTH_R_def)
  moreover have "d \<le> 4 * 6370" using hi by (simp add: d EARTH_R_def)
  moreover have "(4 * 6370 :: real) \<le> INF_c" by (simp add: INF_c_def)
  ultimately show ?thesis by simp
qed

lemma INF_c_pos: "0 < INF_c"
  by (simp add: INF_c_def)

lemma init_D_range: "0 \<le> init_D airports cosA V a b \<and> init_D airports cosA V a b \<le> INF_c"
  using pair_edge_Some INF_c_pos
  by (auto simp: init_D_def split: option.splits)

lemma init_D_inv: "fw_inv n 0 (init_D airports cosA V)"
  unfolding fw_inv_def
proof (intro conjI allI impI)
  fix i j
  show "init_D airports cosA V i i = 0" by (simp add: init_D_def)
  show "0 \<le> init_D airports cosA V i j" using init_D_range by simp
  show "init_D airports cosA V i j = init_D airports cosA V j i"
    by (simp add: init_D_def min.commute max.commute)
qed simp

lemma init_D_bounded: "bounded n (init_D airports cosA V)"
  using init_D_range by (simp add: bounded_def)

lemma scenario_D_inv:
  "fw_inv (length (build_nodes (real_of_int R / EARTH_R) airports))
          (length (build_nodes (real_of_int R / EARTH_R) airports)) (scenario_D R airports)"
  unfolding scenario_D_def Let_def
  using g_fw_inv [OF init_D_inv] floyd_warshall_eq [OF init_D_inv init_D_bounded]
  by simp

lemma adj_aux_inv: "fw_inv (length vertices) (length vertices) (adj_aux vertices airports_xyz R)"
  unfolding adj_aux_def floyd_cpp_eq using adj_aux_init_inv by (rule g_fw_inv)




section \<open>main.cpp: the queries\<close>

text \<open>
  Lines 409 to 423. \<^verbatim>\<open>airport_to_vertex_idx\<close> is a parameter: the index that the
  vertex map gives to each airport.
\<close>

definition current_adj_refuel_init ::
  "(nat \<Rightarrow> nat \<Rightarrow> ext) \<Rightarrow> (nat \<Rightarrow> nat) \<Rightarrow> real \<Rightarrow> nat \<Rightarrow> nat \<Rightarrow> ext" where
  "current_adj_refuel_init adj airport_to_vertex_idx c i j =
     (if i = j then Fin 0
      else
        let u_idx = airport_to_vertex_idx i;
            v_idx = airport_to_vertex_idx j
        in if adj u_idx v_idx \<le> Fin (c + EPS) then adj u_idx v_idx else PInf)"

text \<open>Lines 425 to 440, with \<open>s\<close> and \<open>t\<close> already counted from 0.\<close>

definition answer_cpp ::
  "(nat \<Rightarrow> nat \<Rightarrow> ext) \<Rightarrow> (nat \<Rightarrow> nat) \<Rightarrow> nat \<Rightarrow> nat \<Rightarrow> nat \<Rightarrow> real \<Rightarrow> answer" where
  "answer_cpp adj airport_to_vertex_idx N s t c =
     (case floyd_cpp N (current_adj_refuel_init adj airport_to_vertex_idx c) s t of
        PInf \<Rightarrow> Impossible
      | Fin d \<Rightarrow> Distance d)"

lemma refuel_init_inv:
  assumes adj: "fw_inv V V adj" and idx: "\<forall>i<N. idx i < V"
  shows "fw_inv N 0 (current_adj_refuel_init adj idx c)"
  unfolding fw_inv_def
proof (intro conjI allI impI)
  fix i j assume i: "i < N" and j: "j < N"
  have u: "idx i < V" and v: "idx j < V" using idx i j by simp_all
  have nn: "0 \<le> adj (idx i) (idx j)" using adj u v unfolding fw_inv_def by blast
  have sy: "adj (idx i) (idx j) = adj (idx j) (idx i)" using adj u v unfolding fw_inv_def by blast
  show "current_adj_refuel_init adj idx c i i = 0"
    by (simp add: current_adj_refuel_init_def zero_ext_def)
  show "0 \<le> current_adj_refuel_init adj idx c i j"
    using nn by (simp add: current_adj_refuel_init_def Let_def zero_ext_def)
  show "current_adj_refuel_init adj idx c i j = current_adj_refuel_init adj idx c j i"
    using sy by (auto simp: current_adj_refuel_init_def Let_def)
qed simp


lemma g_fw_prefix_eq:
  fixes D :: "nat \<Rightarrow> nat \<Rightarrow> 'a::{linorder, ordered_comm_monoid_add}"
  assumes "fw_inv n 0 D" and "m < n"
  shows "fold (\<lambda>k D. g_iter n k D) [0..<Suc m] D =
         fw_step n m (fold (\<lambda>k D. g_iter n k D) [0..<m] D)"
proof -
  have "fw_inv n m (fold (\<lambda>k D. g_iter n k D) [0..<m] D)"
    using assms by (intro g_fw_prefix_inv) simp_all
  then have "fold (\<lambda>k D. g_iter n k D) [0..<m] D m m = 0"
    using assms(2) unfolding fw_inv_def by blast
  then have "g_iter n m (fold (\<lambda>k D. g_iter n k D) [0..<m] D) =
             fw_step n m (fold (\<lambda>k D. g_iter n k D) [0..<m] D)"
    by (rule g_iter_eq)
  then show ?thesis by simp
qed





lemma answer_cpp_same:
  assumes adj: "fw_inv V V adj" and idx: "\<forall>i<N. idx i < V" and s: "s < N"
  shows "answer_cpp adj idx N s s c = Distance 0"
proof -
  have "fw_inv N N (g_fw N (current_adj_refuel_init adj idx c))"
    using refuel_init_inv [OF adj idx] by (rule g_fw_inv)
  then have "g_fw N (current_adj_refuel_init adj idx c) s s = 0"
    using s unfolding fw_inv_def by blast
  then show ?thesis by (simp add: answer_cpp_def floyd_cpp_eq zero_ext_def)
qed






lemma fw_step_le:
  fixes D :: "nat \<Rightarrow> nat \<Rightarrow> 'a::{linorder, ordered_comm_monoid_add}"
  shows "fw_step n k D i j \<le> D i j"
  by (simp add: fw_step_def)

lemma g_fw_prefix_le:
  fixes D :: "nat \<Rightarrow> nat \<Rightarrow> 'a::{linorder, ordered_comm_monoid_add}"
  assumes D: "fw_inv n 0 D" and m: "m \<le> n"
  shows "fold (\<lambda>k D. g_iter n k D) [0..<m] D i j \<le> D i j"
  using m
proof (induction m)
  case 0
  show ?case by simp
next
  case (Suc m)
  then have mn: "m < n" and IH: "fold (\<lambda>k D. g_iter n k D) [0..<m] D i j \<le> D i j" by simp_all
  show ?case unfolding g_fw_prefix_eq [OF D mn]
    using fw_step_le IH by (rule order_trans)
qed

lemma g_fw_le:
  fixes D :: "nat \<Rightarrow> nat \<Rightarrow> 'a::{linorder, ordered_comm_monoid_add}"
  assumes "fw_inv n 0 D"
  shows "g_fw n D i j \<le> D i j"
  unfolding g_fw_def using assms by (rule g_fw_prefix_le) simp




section \<open>main.c: the Dijkstra run of a query\<close>

lemma select_min_prefix:
  fixes distN :: "nat \<Rightarrow> real" and used :: "nat \<Rightarrow> bool"
  shows "case fold (\<lambda>i (u, best). if \<not> used i \<and> distN i < best then (Some i, distN i) else (u, best))
          [0..<m] (None, INF_c) of
     (None, best) \<Rightarrow> best = INF_c \<and> (\<forall>i<m. used i \<or> INF_c \<le> distN i)
   | (Some u, best) \<Rightarrow> u < m \<and> \<not> used u \<and> best = distN u \<and> distN u < INF_c \<and>
                        (\<forall>j<m. \<not> used j \<longrightarrow> distN u \<le> distN j)"
proof (induction m)
  case 0
  show ?case by simp
next
  case (Suc m)
  obtain u best where r: "fold (\<lambda>i (u, best). if \<not> used i \<and> distN i < best then (Some i, distN i) else (u, best))
          [0..<m] (None, INF_c) = (u, best)" by (cases "fold (\<lambda>i (u, best). if \<not> used i \<and> distN i < best then (Some i, distN i) else (u, best))
          [0..<m] (None, INF_c)") auto
  show ?case
  proof (cases u)
    case None
    then have IH: "best = INF_c" "\<forall>i<m. used i \<or> INF_c \<le> distN i" using Suc r by simp_all
    show ?thesis using IH r None by (auto simp: less_Suc_eq)
  next
    case (Some a)
    then have IH: "a < m" "\<not> used a" "best = distN a" "distN a < INF_c"
      "\<forall>j<m. \<not> used j \<longrightarrow> distN a \<le> distN j" using Suc r by simp_all
    show ?thesis
    proof (cases "\<not> used m \<and> distN m < best")
      case True
      then have "\<forall>j<Suc m. \<not> used j \<longrightarrow> distN m \<le> distN j"
        using IH by (auto simp: less_Suc_eq)
      then show ?thesis using True IH r Some by auto
    next
      case False
      then have "\<forall>j<Suc m. \<not> used j \<longrightarrow> distN a \<le> distN j"
        using IH by (auto simp: less_Suc_eq)
      then show ?thesis using False IH r Some by auto
    qed
  qed
qed

lemma select_min_None:
  assumes "fst (select_min N distN used) = None"
  shows "\<forall>i<N. used i \<or> INF_c \<le> distN i"
  using select_min_prefix [where m = N and used = used and distN = distN] assms
  by (auto simp: select_min_def split: prod.splits option.splits)

lemma select_min_Some:
  assumes "fst (select_min N distN used) = Some u"
  shows "u < N \<and> \<not> used u \<and> distN u < INF_c \<and> (\<forall>j<N. \<not> used j \<longrightarrow> distN u \<le> distN j)"
  using select_min_prefix [where m = N and used = used and distN = distN] assms
  by (auto simp: select_min_def split: prod.splits option.splits)

lemma relax_from_prefix:
  fixes AtoA :: "nat \<Rightarrow> nat \<Rightarrow> real" and distN :: "nat \<Rightarrow> real"
  assumes "0 \<le> AtoA u u"
  shows "fold (\<lambda>v d. let w = AtoA u v
                      in if w \<le> c + 1 / 10 ^ 9 \<and> d u + w < d v then d(v := d u + w) else d)
              [0..<m] distN =
         (\<lambda>v. if v < m \<and> AtoA u v \<le> c + 1 / 10 ^ 9 \<and> distN u + AtoA u v < distN v
               then distN u + AtoA u v else distN v)"
proof (induction m)
  case 0
  show ?case by simp
next
  case (Suc m)
  let ?E = "\<lambda>v. if v < m \<and> AtoA u v \<le> c + 1 / 10 ^ 9 \<and> distN u + AtoA u v < distN v
               then distN u + AtoA u v else distN v"
  have Eu: "?E u = distN u" using assms by simp
  have Em: "?E m = distN m" by simp
  show ?case
    unfolding upt_Suc_append [OF le0] fold_append comp_def Suc.IH
    using assms by (auto simp: Let_def fun_eq_iff less_Suc_eq)
qed

lemma relax_from_eq:
  assumes "0 \<le> AtoA u u"
  shows "relax_from AtoA c N u distN =
         (\<lambda>v. if v < N \<and> AtoA u v \<le> c + 1 / 10 ^ 9 \<and> distN u + AtoA u v < distN v
               then distN u + AtoA u v else distN v)"
  unfolding relax_from_def using assms by (rule relax_from_prefix)


text \<open>
  A leg of the filtered airport graph of \<^verbatim>\<open>main.c\<close>: two airports whose safe distance
  is below \<^verbatim>\<open>INF\<close> and at most \<open>c + 1e-9\<close>. \<open>walk_c\<close> holds of \<open>v\<close> and \<open>x\<close> when a
  chain of legs from \<open>s\<close> to \<open>v\<close> has total length \<open>x\<close>.
\<close>

definition leg_c :: "(nat \<Rightarrow> nat \<Rightarrow> real) \<Rightarrow> nat \<Rightarrow> real \<Rightarrow> nat \<Rightarrow> nat \<Rightarrow> bool" where
  "leg_c AtoA N c u v \<longleftrightarrow> u < N \<and> v < N \<and> AtoA u v \<le> c + 1 / 10 ^ 9 \<and> AtoA u v < INF_c"

inductive walk_c :: "(nat \<Rightarrow> nat \<Rightarrow> real) \<Rightarrow> nat \<Rightarrow> real \<Rightarrow> nat \<Rightarrow> nat \<Rightarrow> real \<Rightarrow> bool"
  for AtoA :: "nat \<Rightarrow> nat \<Rightarrow> real" and N :: nat and c :: real and s :: nat where
  start: "walk_c AtoA N c s s 0"
| leg: "walk_c AtoA N c s u x \<Longrightarrow> leg_c AtoA N c u v \<Longrightarrow> walk_c AtoA N c s v (x + AtoA u v)"

text \<open>
  The invariant of the rounds of the Dijkstra loop, after \<open>k\<close> rounds: the source is at
  0; every distance below \<^verbatim>\<open>INF\<close> is the length of a chain of legs; every leg out
  of a used airport is relaxed; used airports are no farther than unused ones; \<open>k\<close>
  airports are used; and, when the finite entries of the matrix are at most \<open>B\<close>, a
  distance below \<^verbatim>\<open>INF\<close> is at most \<open>k * B\<close>.
\<close>

definition dij_inv ::
  "(nat \<Rightarrow> nat \<Rightarrow> real) \<Rightarrow> nat \<Rightarrow> real \<Rightarrow> nat \<Rightarrow> real \<Rightarrow> nat \<Rightarrow> (nat \<Rightarrow> real) \<times> (nat \<Rightarrow> bool) \<Rightarrow> bool" where
  "dij_inv AtoA N c s B k st \<longleftrightarrow>
     fst st s = 0 \<and>
     (\<forall>v<N. 0 \<le> fst st v \<and> fst st v \<le> INF_c) \<and>
     (\<forall>v<N. fst st v < INF_c \<longrightarrow> walk_c AtoA N c s v (fst st v)) \<and>
     (\<forall>u<N. snd st u \<longrightarrow>
        fst st u < INF_c \<and> (\<forall>v<N. AtoA u v \<le> c + 1 / 10 ^ 9 \<longrightarrow> fst st v \<le> fst st u + AtoA u v)) \<and>
     (\<forall>u<N. \<forall>v<N. snd st u \<longrightarrow> \<not> snd st v \<longrightarrow> fst st u \<le> fst st v) \<and>
     card {u. u < N \<and> snd st u} = k \<and>
     (0 \<le> B \<and> (\<forall>u<N. \<forall>v<N. AtoA u v < INF_c \<longrightarrow> AtoA u v \<le> B) \<longrightarrow>
        (\<forall>v<N. fst st v < INF_c \<longrightarrow> fst st v \<le> real k * B))"

lemma dij_inv_init:
  assumes "s < N"
  shows "dij_inv AtoA N c s B 0 (\<lambda>i. if i = s then 0 else INF_c, \<lambda>i. False)"
  unfolding dij_inv_def using INF_c_pos by (auto intro: walk_c.start)

lemma dij_inv_step:
  assumes nn: "\<forall>u<N. \<forall>v<N. 0 \<le> AtoA u v" and s: "s < N"
    and inv: "dij_inv AtoA N c s B k (d, used)"
    and sel: "fst (select_min N d used) = Some u"
  shows "dij_inv AtoA N c s B (Suc k) (relax_from AtoA c N u d, used(u := True))"
proof -
  let ?d = "relax_from AtoA c N u d"
  let ?ok = "\<lambda>v. AtoA u v \<le> c + 1 / 10 ^ 9"
  have u: "u < N" and nu: "\<not> used u" and du: "d u < INF_c"
    and umin: "\<forall>j<N. \<not> used j \<longrightarrow> d u \<le> d j"
    using select_min_Some [OF sel] by simp_all
  have ds: "d s = 0" and rng: "\<forall>v<N. 0 \<le> d v \<and> d v \<le> INF_c"
    and wk: "\<forall>v<N. d v < INF_c \<longrightarrow> walk_c AtoA N c s v (d v)"
    and dn: "\<forall>x<N. used x \<longrightarrow> d x < INF_c \<and> (\<forall>v<N. AtoA x v \<le> c + 1 / 10 ^ 9 \<longrightarrow> d v \<le> d x + AtoA x v)"
    and ord: "\<forall>x<N. \<forall>v<N. used x \<longrightarrow> \<not> used v \<longrightarrow> d x \<le> d v"
    and cd: "card {x. x < N \<and> used x} = k"
    and bd: "0 \<le> B \<and> (\<forall>x<N. \<forall>v<N. AtoA x v < INF_c \<longrightarrow> AtoA x v \<le> B) \<longrightarrow>
             (\<forall>v<N. d v < INF_c \<longrightarrow> d v \<le> real k * B)"
    using inv unfolding dij_inv_def fst_conv snd_conv by blast+
  have d0: "0 \<le> d u" using rng u by simp
  have w0: "0 \<le> AtoA u v" if "v < N" for v using nn u that by simp
  have eq: "?d v = (if v < N \<and> ?ok v \<and> d u + AtoA u v < d v then d u + AtoA u v else d v)" for v
    using relax_from_eq [of AtoA u c N d] w0 [OF u] by simp
  have le: "?d v \<le> d v" for v by (simp add: eq)
  have keep: "?d x = d x" if x: "x < N" and ux: "used x \<or> x = u" for x
  proof -
    have "d x \<le> d u" using ux ord x u nu by auto
    then have "\<not> d u + AtoA u x < d x" using w0 [OF x] by simp
    then show ?thesis by (simp add: eq)
  qed
  have p1: "?d s = 0"
  proof -
    have "\<not> d u + AtoA u s < d s" using ds d0 w0 [OF s] by simp
    then show ?thesis using ds by (simp add: eq)
  qed
  have p2: "\<forall>v<N. 0 \<le> ?d v \<and> ?d v \<le> INF_c"
  proof (intro allI impI)
    fix v assume v: "v < N"
    have "0 \<le> d u + AtoA u v" using d0 w0 [OF v] by simp
    then have "0 \<le> ?d v" using rng v by (simp add: eq)
    moreover have "?d v \<le> INF_c" using le [of v] rng v by (meson order_trans)
    ultimately show "0 \<le> ?d v \<and> ?d v \<le> INF_c" by simp
  qed
  have p3: "\<forall>v<N. ?d v < INF_c \<longrightarrow> walk_c AtoA N c s v (?d v)"
  proof (intro allI impI)
    fix v assume v: "v < N" and f: "?d v < INF_c"
    show "walk_c AtoA N c s v (?d v)"
    proof (cases "?ok v \<and> d u + AtoA u v < d v")
      case True
      have "d v \<le> INF_c" using rng v by simp
      then have "AtoA u v < INF_c" using True d0 by simp
      then have "leg_c AtoA N c u v" using True u v by (simp add: leg_c_def)
      moreover have "walk_c AtoA N c s u (d u)" using wk u du by simp
      ultimately have "walk_c AtoA N c s v (d u + AtoA u v)" by (rule walk_c.leg [rotated])
      then show ?thesis using True v by (simp add: eq)
    next
      case False
      then have "?d v = d v" by (auto simp: eq)
      then show ?thesis using wk v f by simp
    qed
  qed
  have p4: "\<forall>x<N. (used(u := True)) x \<longrightarrow>
              ?d x < INF_c \<and> (\<forall>v<N. AtoA x v \<le> c + 1 / 10 ^ 9 \<longrightarrow> ?d v \<le> ?d x + AtoA x v)"
  proof (intro allI impI)
    fix x assume x: "x < N" and ux: "(used(u := True)) x"
    then have ux': "used x \<or> x = u" by (auto split: if_splits)
    have k: "?d x = d x" using keep [OF x ux'] .
    have fin: "d x < INF_c" using ux' dn x du by auto
    have "\<forall>v<N. AtoA x v \<le> c + 1 / 10 ^ 9 \<longrightarrow> ?d v \<le> d x + AtoA x v"
    proof (intro allI impI)
      fix v assume v: "v < N" and okv: "AtoA x v \<le> c + 1 / 10 ^ 9"
      show "?d v \<le> d x + AtoA x v"
      proof (cases "x = u")
        case True
        then show ?thesis using okv v by (simp add: eq)
      next
        case False
        then have "used x" using ux' by simp
        then have "d v \<le> d x + AtoA x v" using dn x v okv by blast
        then show ?thesis using le [of v] by (meson order_trans)
      qed
    qed
    then show "?d x < INF_c \<and> (\<forall>v<N. AtoA x v \<le> c + 1 / 10 ^ 9 \<longrightarrow> ?d v \<le> ?d x + AtoA x v)"
      using k fin by simp
  qed
  have p5: "\<forall>x<N. \<forall>v<N. (used(u := True)) x \<longrightarrow> \<not> (used(u := True)) v \<longrightarrow> ?d x \<le> ?d v"
  proof (intro allI impI)
    fix x v assume x: "x < N" and v: "v < N" and ux: "(used(u := True)) x"
      and nv: "\<not> (used(u := True)) v"
    have ux': "used x \<or> x = u" using ux by (auto split: if_splits)
    have nv': "\<not> used v" and vu: "v \<noteq> u" using nv by (auto split: if_splits)
    have k: "?d x = d x" using keep [OF x ux'] .
    have xu: "d x \<le> d u" using ux' ord x u nu by auto
    have xv: "d x \<le> d v" using ux' ord umin x v nv' by auto
    have "d x \<le> d u + AtoA u v" using xu w0 [OF v] by simp
    then have "d x \<le> ?d v" using xv by (simp add: eq)
    then show "?d x \<le> ?d v" using k by simp
  qed
  have p6: "card {x. x < N \<and> (used(u := True)) x} = Suc k"
  proof -
    have "{x. x < N \<and> (used(u := True)) x} = insert u {x. x < N \<and> used x}"
      using u by auto
    moreover have "u \<notin> {x. x < N \<and> used x}" using nu by simp
    moreover have "finite {x. x < N \<and> used x}" by simp
    ultimately show ?thesis using cd by simp
  qed
  have p7: "0 \<le> B \<and> (\<forall>x<N. \<forall>v<N. AtoA x v < INF_c \<longrightarrow> AtoA x v \<le> B) \<longrightarrow>
            (\<forall>v<N. ?d v < INF_c \<longrightarrow> ?d v \<le> real (Suc k) * B)"
  proof (intro allI impI)
    fix v assume hB: "0 \<le> B \<and> (\<forall>x<N. \<forall>v<N. AtoA x v < INF_c \<longrightarrow> AtoA x v \<le> B)"
      and v: "v < N" and f: "?d v < INF_c"
    have B0: "0 \<le> B" and hb: "\<forall>x<N. \<forall>v<N. AtoA x v < INF_c \<longrightarrow> AtoA x v \<le> B"
      using hB by simp_all
    have old: "\<forall>v<N. d v < INF_c \<longrightarrow> d v \<le> real k * B" using bd hB by blast
    have ub: "d u \<le> real k * B" using old u du by simp
    show "?d v \<le> real (Suc k) * B"
    proof (cases "?ok v \<and> d u + AtoA u v < d v")
      case True
      have "d v \<le> INF_c" using rng v by simp
      then have "AtoA u v < INF_c" using True d0 by simp
      then have "AtoA u v \<le> B" using hb u v by simp
      then have "d u + AtoA u v \<le> real k * B + B" using ub by simp
      then show ?thesis using True v by (simp add: eq algebra_simps)
    next
      case False
      then have e: "?d v = d v" by (auto simp: eq)
      then have "d v \<le> real k * B" using old v f by simp
      then have "d v \<le> real k * B + B" using B0 by simp
      then show ?thesis using e by (simp add: algebra_simps)
    qed
  qed
  show ?thesis
    unfolding dij_inv_def fst_conv snd_conv
    using p1 p2 p3 p4 p5 p6 p7 by (intro conjI)
qed


lemma dijkstra_loop_inv:
  assumes nn: "\<forall>u<N. \<forall>v<N. 0 \<le> AtoA u v" and s: "s < N"
    and inv: "dij_inv AtoA N c s B k st" and fuel: "k + it = N"
  shows "\<exists>k'\<le>N. dij_inv AtoA N c s B k' (dijkstra_loop AtoA c N it st) \<and>
           (\<forall>v<N. fst (dijkstra_loop AtoA c N it st) v < INF_c \<longrightarrow> snd (dijkstra_loop AtoA c N it st) v)"
  using inv fuel
proof (induction it arbitrary: k st)
  case 0
  then have k: "k = N" by simp
  have cd: "card {u. u < N \<and> snd st u} = N" using "0.prems"(1) k unfolding dij_inv_def by blast
  have "{u. u < N \<and> snd st u} = {..<N}"
    by (rule card_subset_eq) (use cd in auto)
  then have "\<forall>v<N. snd st v" by blast
  then show ?case using "0.prems"(1) k by auto
next
  case (Suc it)
  obtain d used where st: "st = (d, used)" by (cases st)
  show ?case
  proof (cases "fst (select_min N d used)")
    case None
    have "\<forall>v<N. d v < INF_c \<longrightarrow> used v" using select_min_None [OF None] by fastforce
    moreover have "k \<le> N" using Suc.prems(2) by simp
    ultimately show ?thesis using None Suc.prems(1) st by auto
  next
    case (Some u)
    have "dij_inv AtoA N c s B (Suc k) (relax_from AtoA c N u d, used(u := True))"
      using nn s Suc.prems(1) Some unfolding st by (rule dij_inv_step)
    moreover have "Suc k + it = N" using Suc.prems(2) by simp
    ultimately have "\<exists>k'\<le>N. dij_inv AtoA N c s B k'
        (dijkstra_loop AtoA c N it (relax_from AtoA c N u d, used(u := True))) \<and>
        (\<forall>v<N. fst (dijkstra_loop AtoA c N it (relax_from AtoA c N u d, used(u := True))) v < INF_c
          \<longrightarrow> snd (dijkstra_loop AtoA c N it (relax_from AtoA c N u d, used(u := True))) v)"
      by (rule Suc.IH)
    then show ?thesis using Some st by simp
  qed
qed

text \<open>The state in which the loop of lines 244 to 257 leaves \<^verbatim>\<open>distN\<close> and \<^verbatim>\<open>used\<close>.\<close>

definition dijkstra_result :: "(nat \<Rightarrow> nat \<Rightarrow> real) \<Rightarrow> nat \<Rightarrow> nat \<Rightarrow> real \<Rightarrow> (nat \<Rightarrow> real) \<times> (nat \<Rightarrow> bool)" where
  "dijkstra_result AtoA N s c =
     dijkstra_loop AtoA c N N (\<lambda>i. if i = s then 0 else INF_c, \<lambda>i. False)"

lemma answer_query_eq:
  "answer_query AtoA N s t c =
     (if fst (dijkstra_result AtoA N s c) t \<ge> INF_c / 2 then Impossible
      else Distance (fst (dijkstra_result AtoA N s c) t))"
  by (simp add: answer_query_def dijkstra_result_def Let_def)

lemma dijkstra_result_inv:
  assumes "\<forall>u<N. \<forall>v<N. 0 \<le> AtoA u v" and "s < N"
  shows "\<exists>k'\<le>N. dij_inv AtoA N c s B k' (dijkstra_result AtoA N s c) \<and>
           (\<forall>v<N. fst (dijkstra_result AtoA N s c) v < INF_c \<longrightarrow> snd (dijkstra_result AtoA N s c) v)"
  unfolding dijkstra_result_def
  using assms dij_inv_init [OF assms(2)] by (rule dijkstra_loop_inv) simp

lemma answer_query_same:
  assumes "\<forall>u<N. \<forall>v<N. 0 \<le> AtoA u v" and "s < N"
  shows "answer_query AtoA N s s c = Distance 0"
proof -
  obtain k where "dij_inv AtoA N c s 0 k (dijkstra_result AtoA N s c)"
    using dijkstra_result_inv [OF assms] by blast
  then have "fst (dijkstra_result AtoA N s c) s = 0" unfolding dij_inv_def by blast
  then show ?thesis using INF_c_pos by (simp add: answer_query_eq)
qed

lemma walk_c_target: "walk_c AtoA N c s v x \<Longrightarrow> s < N \<Longrightarrow> v < N"
  by (induction rule: walk_c.induct) (simp_all add: leg_c_def)


lemma walk_c_connected: "walk_c AtoA N c s v x \<Longrightarrow> (leg_c AtoA N c)\<^sup>*\<^sup>* s v"
  by (induction rule: walk_c.induct) (auto intro: rtranclp.rtrancl_into_rtrancl)

lemma leg_c_mono: "c1 \<le> c2 \<Longrightarrow> leg_c AtoA N c1 u v \<Longrightarrow> leg_c AtoA N c2 u v"
  by (simp add: leg_c_def)



lemma answer_query_impossible_iff:
  assumes nn: "\<forall>u<N. \<forall>v<N. 0 \<le> AtoA u v" and s: "s < N" and t: "t < N"
    and B0: "0 \<le> B" and hb: "\<forall>u<N. \<forall>v<N. AtoA u v < INF_c \<longrightarrow> AtoA u v \<le> B"
    and small: "real (N + 1) * B < INF_c / 2"
  shows "answer_query AtoA N s t c = Impossible \<longleftrightarrow> \<not> (leg_c AtoA N c)\<^sup>*\<^sup>* s t"
proof -
  let ?d = "fst (dijkstra_result AtoA N s c)"
  obtain k where k: "k \<le> N" and inv: "dij_inv AtoA N c s B k (dijkstra_result AtoA N s c)"
    and cmpl: "\<forall>v<N. ?d v < INF_c \<longrightarrow> snd (dijkstra_result AtoA N s c) v"
    using dijkstra_result_inv [OF nn s] by blast
  have ds: "?d s = 0" using inv unfolding dij_inv_def by blast
  have wk: "\<forall>v<N. ?d v < INF_c \<longrightarrow> walk_c AtoA N c s v (?d v)"
    using inv unfolding dij_inv_def by blast
  have rel: "\<forall>u<N. snd (dijkstra_result AtoA N s c) u \<longrightarrow>
               (\<forall>v<N. AtoA u v \<le> c + 1 / 10 ^ 9 \<longrightarrow> ?d v \<le> ?d u + AtoA u v)"
    using inv unfolding dij_inv_def by blast
  have bnd: "\<forall>v<N. ?d v < INF_c \<longrightarrow> ?d v \<le> real k * B"
    using inv B0 hb unfolding dij_inv_def by blast
  have kB: "real k * B \<le> real N * B" using k B0 by (simp add: mult_right_mono)
  have NB: "real N * B + B < INF_c / 2" using small by (simp add: algebra_simps)
  have half: "INF_c / 2 < INF_c" using INF_c_pos by simp
  have low: "?d v \<le> real N * B" if "v < N" "?d v < INF_c" for v
    using bnd that kB by (meson order_trans)
  have a: "?d t < INF_c" if "(leg_c AtoA N c)\<^sup>*\<^sup>* s t"
    using that
  proof (induction rule: rtranclp_induct)
    case base
    show ?case using ds INF_c_pos by simp
  next
    case (step y z)
    have l: "y < N" "z < N" "AtoA y z \<le> c + 1 / 10 ^ 9" "AtoA y z < INF_c"
      using step.hyps(2) by (simp_all add: leg_c_def)
    have "snd (dijkstra_result AtoA N s c) y" using cmpl l(1) step.IH by simp
    then have "?d z \<le> ?d y + AtoA y z" using rel l by blast
    moreover have "?d y \<le> real N * B" using low l(1) step.IH by simp
    moreover have "AtoA y z \<le> B" using hb l by simp
    ultimately have "?d z \<le> real N * B + B" by simp
    then show ?case using NB half by simp
  qed
  have b: "?d t < INF_c / 2" if "?d t < INF_c"
  proof -
    have "?d t \<le> real N * B" using low t that by simp
    moreover have "real N * B \<le> real N * B + B" using B0 by simp
    ultimately show ?thesis using NB by simp
  qed
  have c': "(leg_c AtoA N c)\<^sup>*\<^sup>* s t" if "?d t < INF_c"
    using wk t that walk_c_connected by blast
  have "answer_query AtoA N s t c = Impossible \<longleftrightarrow> \<not> ?d t < INF_c / 2"
    by (simp add: answer_query_eq not_less)
  then show ?thesis using a b c' half by (metis less_trans)
qed

lemma build_nodes_length: "length airports \<le> length (build_nodes alpha airports)"
  by (simp add: build_nodes_def)

lemma scenario_D_nonneg:
  assumes "u < length airports" and "v < length airports"
  shows "0 \<le> scenario_D R airports u v"
proof -
  let ?n = "length (build_nodes (real_of_int R / EARTH_R) airports)"
  have "u < ?n" "v < ?n"
    using assms build_nodes_length [of airports "real_of_int R / EARTH_R"] by simp_all
  then show ?thesis using scenario_D_inv [of R airports] unfolding fw_inv_def by blast
qed

lemma scenario_D_nonneg_all:
  "\<forall>u<length airports. \<forall>v<length airports. 0 \<le> scenario_D R airports u v"
  using scenario_D_nonneg by blast

text \<open>
  Claim C10. A query whose source airport is its target is answered with the distance 0
  (which \<^verbatim>\<open>printf\<close> and the stream print as \<^verbatim>\<open>0.000\<close>), never with \<^verbatim>\<open>impossible\<close>, for every
  capacity and every set of airports: in \<^verbatim>\<open>main.c\<close> (\<open>answer_query\<close> on the matrix of the
  scenario) and in \<^verbatim>\<open>main.cpp\<close> (\<open>answer_cpp\<close>, for any vertex list and any map from the
  airports to vertex indices).
\<close>

theorem same_airport_distance_zero:
  "(s < length airports \<longrightarrow>
      answer_query (scenario_D R airports) (length airports) s s c = Distance 0) \<and>
   ((\<forall>i<length airports_xyz. idx i < length vertices) \<and> s' < length airports_xyz \<longrightarrow>
      answer_cpp (adj_aux vertices airports_xyz Rs) idx (length airports_xyz) s' s' c' = Distance 0)"
proof (intro conjI impI)
  assume "s < length airports"
  with scenario_D_nonneg_all
  show "answer_query (scenario_D R airports) (length airports) s s c = Distance 0"
    by (rule answer_query_same)
next
  assume h: "(\<forall>i<length airports_xyz. idx i < length vertices) \<and> s' < length airports_xyz"
  have i: "\<forall>i<length airports_xyz. idx i < length vertices" and s: "s' < length airports_xyz"
    using h by simp_all
  show "answer_cpp (adj_aux vertices airports_xyz Rs) idx (length airports_xyz) s' s' c' = Distance 0"
    using adj_aux_inv i s by (rule answer_cpp_same)
qed

theorem same_airport_distance_zero_witness:
  "answer_query (scenario_D 0 [\<lparr>vx = 1, vy = 0, vz = 0\<rparr>]) (length [\<lparr>vx = 1, vy = 0, vz = 0\<rparr>]) 0 0 0
     = Distance 0 \<and>
   answer_cpp (adj_aux [\<lparr>px = 6370, py = 0, pz = 0\<rparr>] [\<lparr>px = 6370, py = 0, pz = 0\<rparr>] 0) (\<lambda>i. 0)
     (length [\<lparr>px = 6370, py = 0, pz = 0\<rparr>]) 0 0 0 = Distance 0"
proof -
  have l: "(0::nat) < length [\<lparr>vx = 1, vy = 0, vz = 0\<rparr>]" by simp
  have r: "(\<forall>i<length [\<lparr>px = 6370, py = 0, pz = 0\<rparr>]. (\<lambda>i. 0::nat) i < length [\<lparr>px = 6370, py = 0, pz = 0\<rparr>])
           \<and> (0::nat) < length [\<lparr>px = 6370, py = 0, pz = 0\<rparr>]" by simp
  note t = same_airport_distance_zero [of 0 "[\<lparr>vx = 1, vy = 0, vz = 0\<rparr>]" 0 0
      "[\<lparr>px = 6370, py = 0, pz = 0\<rparr>]" "\<lambda>i. 0" "[\<lparr>px = 6370, py = 0, pz = 0\<rparr>]" 0 0 0]
  show ?thesis
  proof (rule conjI)
    show "answer_query (scenario_D 0 [\<lparr>vx = 1, vy = 0, vz = 0\<rparr>]) (length [\<lparr>vx = 1, vy = 0, vz = 0\<rparr>]) 0 0 0
            = Distance 0"
      using t [THEN conjunct1] l by (rule mp)
    show "answer_cpp (adj_aux [\<lparr>px = 6370, py = 0, pz = 0\<rparr>] [\<lparr>px = 6370, py = 0, pz = 0\<rparr>] 0) (\<lambda>i. 0)
            (length [\<lparr>px = 6370, py = 0, pz = 0\<rparr>]) 0 0 0 = Distance 0"
      using t [THEN conjunct2] r by (rule mp)
  qed
qed



section \<open>A bound on the finite safe distances of main.c\<close>

text \<open>
  A chain of edges of a matrix: \<open>chain e i xs j\<close> holds when the vertices \<open>xs\<close>, each
  reached from the one before by an edge \<open>e\<close>, lead from \<open>i\<close> to \<open>j\<close>.
\<close>

fun chain :: "(nat \<Rightarrow> nat \<Rightarrow> bool) \<Rightarrow> nat \<Rightarrow> nat list \<Rightarrow> nat \<Rightarrow> bool" where
  "chain e i [] j = (i = j)"
| "chain e i (x # xs) j = (e i x \<and> chain e x xs j)"

lemma chain_suffix:
  "chain e y xs j \<Longrightarrow> y # xs = as @ i # bs \<Longrightarrow> chain e i bs j"
proof (induction as arbitrary: y xs)
  case Nil
  then show ?case by simp
next
  case (Cons a as)
  then obtain x xs' where xs: "xs = x # xs'" and r: "x # xs' = as @ i # bs"
    by (cases xs) auto
  have "chain e x xs' j" using Cons.prems(1) xs by simp
  then show ?case using r by (rule Cons.IH)
qed

lemma connected_simple_chain:
  assumes "e\<^sup>*\<^sup>* i j"
  shows "\<exists>xs. chain e i xs j \<and> distinct (i # xs)"
  using assms
proof (induction rule: converse_rtranclp_induct)
  case base
  have "chain e j [] j \<and> distinct (j # [])" by simp
  then show ?case by blast
next
  case (step i y)
  then obtain xs where c: "chain e y xs j" and d: "distinct (y # xs)" by blast
  show ?case
  proof (cases "i \<in> set (y # xs)")
    case True
    then obtain as bs where sp: "y # xs = as @ i # bs" by (meson split_list)
    have "chain e i bs j" using c sp by (rule chain_suffix)
    moreover have "distinct (i # bs)" using d unfolding sp by simp
    ultimately show ?thesis by blast
  next
    case False
    then have "chain e i (y # xs) j \<and> distinct (i # y # xs)" using step.hyps(1) c d by simp
    then show ?thesis by blast
  qed
qed

lemma distinct_below_length:
  assumes "distinct xs" and "\<forall>x\<in>set xs. x < n"
  shows "length xs \<le> n"
proof -
  have "card (set xs) \<le> card {..<n}" using assms(2) by (intro card_mono) auto
  then show ?thesis using distinct_card [OF assms(1)] by simp
qed

text \<open>A direct edge of \<^verbatim>\<open>main.c\<close>'s matrix: an entry below \<^verbatim>\<open>INF\<close>.\<close>

definition edge_c :: "nat \<Rightarrow> (nat \<Rightarrow> nat \<Rightarrow> real) \<Rightarrow> nat \<Rightarrow> nat \<Rightarrow> bool" where
  "edge_c n D a b \<longleftrightarrow> a < n \<and> b < n \<and> D a b < INF_c"

lemma chain_edge_c_below: "chain (edge_c n D) i xs j \<Longrightarrow> \<forall>x\<in>set xs. x < n"
  by (induction xs arbitrary: i) (auto simp: edge_c_def)

lemma chain_edge_c_target: "chain (edge_c n D) i xs j \<Longrightarrow> i < n \<Longrightarrow> j < n"
  by (induction xs arbitrary: i) (auto simp: edge_c_def)

lemma g_fw_below_chain:
  assumes inv: "fw_inv n 0 D" and hi: "\<forall>a<n. \<forall>b<n. D a b < INF_c \<longrightarrow> D a b \<le> hi"
    and i: "i < n" and c: "chain (edge_c n D) i xs j"
  shows "g_fw n D i j \<le> real (length xs) * hi"
  using i c
proof (induction xs arbitrary: i)
  case Nil
  then have "i = j" by simp
  moreover have "fw_inv n n (g_fw n D)" using inv by (rule g_fw_inv)
  ultimately have "g_fw n D i j = 0" using Nil.prems(1) unfolding fw_inv_def by blast
  then show ?case by simp
next
  case (Cons x xs)
  have e: "edge_c n D i x" and r: "chain (edge_c n D) x xs j" using Cons.prems(2) by simp_all
  have x: "x < n" and f: "D i x < INF_c" using e by (simp_all add: edge_c_def)
  have j: "j < n" using r x by (rule chain_edge_c_target)
  have m: "fw_inv n n (g_fw n D)" using inv by (rule g_fw_inv)
  have tri: "g_fw n D i j \<le> g_fw n D i x + g_fw n D x j"
    using m Cons.prems(1) x j unfolding fw_inv_def by blast
  have "g_fw n D i x \<le> D i x" using inv by (rule g_fw_le)
  moreover have "D i x \<le> hi" using hi Cons.prems(1) x f by simp
  moreover have "g_fw n D x j \<le> real (length xs) * hi" using x r by (rule Cons.IH)
  ultimately have "g_fw n D i j \<le> hi + real (length xs) * hi" using tri by simp
  then show ?case by (simp add: algebra_simps)
qed


lemma g_fw_finite_connected_prefix:
  assumes inv: "fw_inv n 0 D" and m: "m \<le> n"
  shows "\<forall>i<n. \<forall>j<n. fold (\<lambda>k D. g_iter n k D) [0..<m] D i j < INF_c \<longrightarrow> (edge_c n D)\<^sup>*\<^sup>* i j"
  using m
proof (induction m)
  case 0
  show ?case by (auto simp: edge_c_def)
next
  case (Suc m)
  define E where "E = fold (\<lambda>k D. g_iter n k D) [0..<m] D"
  have mn: "m < n" using Suc.prems by simp
  have IH: "\<forall>i<n. \<forall>j<n. E i j < INF_c \<longrightarrow> (edge_c n D)\<^sup>*\<^sup>* i j"
    using Suc unfolding E_def by simp
  have Einv: "fw_inv n m E" unfolding E_def using inv mn by (intro g_fw_prefix_inv) simp_all
  have nn: "0 \<le> E a b" if "a < n" "b < n" for a b using Einv that unfolding fw_inv_def by blast
  have step: "fold (\<lambda>k D. g_iter n k D) [0..<Suc m] D = fw_step n m E"
    unfolding E_def using inv mn by (rule g_fw_prefix_eq)
  show ?case unfolding step
  proof (intro allI impI)
    fix i j assume i: "i < n" and j: "j < n" and f: "fw_step n m E i j < INF_c"
    have "E i j < INF_c \<or> E i m + E m j < INF_c"
      using f i j by (simp add: fw_step_def min_def split: if_splits)
    then show "(edge_c n D)\<^sup>*\<^sup>* i j"
    proof
      assume "E i j < INF_c"
      then show ?thesis using IH i j by blast
    next
      assume sm: "E i m + E m j < INF_c"
      have "E i m < INF_c" using sm nn [OF mn j] by simp
      moreover have "E m j < INF_c" using sm nn [OF i mn] by simp
      ultimately have "(edge_c n D)\<^sup>*\<^sup>* i m" and "(edge_c n D)\<^sup>*\<^sup>* m j"
        using IH i j mn by blast+
      then show ?thesis by (rule rtranclp_trans)
    qed
  qed
qed

lemma g_fw_finite_bound:
  assumes inv: "fw_inv n 0 D" and hi: "\<forall>a<n. \<forall>b<n. D a b < INF_c \<longrightarrow> D a b \<le> hi"
    and h0: "0 \<le> hi" and i: "i < n" and j: "j < n" and f: "g_fw n D i j < INF_c"
  shows "g_fw n D i j \<le> real n * hi"
proof -
  have "(edge_c n D)\<^sup>*\<^sup>* i j"
    using g_fw_finite_connected_prefix [OF inv, of n] i j f unfolding g_fw_def by blast
  then obtain xs where c: "chain (edge_c n D) i xs j" and d: "distinct (i # xs)"
    using connected_simple_chain by blast
  have "\<forall>x\<in>set (i # xs). x < n" using i chain_edge_c_below [OF c] by simp
  with d have "length (i # xs) \<le> n" by (rule distinct_below_length)
  then have "real (length xs) \<le> real n" by simp
  then have "real (length xs) * hi \<le> real n * hi" using h0 by (rule mult_right_mono)
  moreover have "g_fw n D i j \<le> real (length xs) * hi" using inv hi i c by (rule g_fw_below_chain)
  ultimately show ?thesis by simp
qed

lemma pair_edge_Some_le:
  assumes "pair_edge airports cosA Va Vb = Some d"
  shows "d \<le> 4 * 6370"
proof -
  obtain th where th: "acos_c (clamp1 (dot Va Vb)) = Some th" and d: "d = th * EARTH_R"
    using assms by (auto simp: pair_edge_def Let_def split: option.splits if_splits)
  have "th = arccos (clamp1 (dot Va Vb))" using th by (auto simp: acos_c_def split: if_splits)
  then have "th \<le> pi" using clamp1_range arccos_ubound by simp
  then have "th \<le> 4" using pi_less_4 by simp
  then show ?thesis by (simp add: d EARTH_R_def)
qed

lemma init_D_finite_le: "init_D airports cosA V a b < INF_c \<Longrightarrow> init_D airports cosA V a b \<le> 4 * 6370"
  using pair_edge_Some_le by (auto simp: init_D_def split: option.splits if_splits)

lemma length_concat_le:
  assumes "\<forall>x\<in>set xs. length (f x) \<le> k"
  shows "length (concat (map f xs)) \<le> k * length xs"
  using assms
proof (induction xs)
  case Nil
  show ?case by simp
next
  case (Cons a xs)
  then have "length (f a) \<le> k" and "length (concat (map f xs)) \<le> k * length xs" by simp_all
  then show ?case by simp
qed

lemma index_pairs_length: "length (index_pairs N) \<le> N * N"
proof -
  have "length (concat (map (\<lambda>i. map (\<lambda>j. (i, j)) [i + 1..<N]) [0..<N])) \<le> N * length [0..<N]"
    by (rule length_concat_le) simp
  then show ?thesis by (simp add: index_pairs_def)
qed

lemma circle_pair_length: "length (circle_pair alpha cosA u v) \<le> 2"
  by (simp add: circle_pair_def Let_def)

lemma build_nodes_length_le: "length (build_nodes alpha airports) \<le> length airports + 2 * (length airports * length airports)"
proof -
  have "length (concat (map (\<lambda>(i, j). circle_pair alpha (cos alpha) (airports ! i) (airports ! j))
                 (index_pairs (length airports)))) \<le> 2 * length (index_pairs (length airports))"
    by (rule length_concat_le) (auto simp: circle_pair_length)
  then show ?thesis
    using index_pairs_length [of "length airports"] by (simp add: build_nodes_def)
qed

lemma scenario_D_finite_bound:
  assumes N: "length airports \<le> MAXN" and u: "u < length airports" and v: "v < length airports"
    and f: "scenario_D R airports u v < INF_c"
  shows "scenario_D R airports u v \<le> 10 ^ 8"
proof -
  let ?V = "build_nodes (real_of_int R / EARTH_R) airports"
  let ?D = "init_D airports (cos (real_of_int R / EARTH_R)) ?V"
  have e: "scenario_D R airports = g_fw (length ?V) ?D"
    unfolding scenario_D_def Let_def using init_D_inv init_D_bounded by (rule floyd_warshall_eq)
  have n: "length ?V \<le> 1275"
  proof -
    have "length airports * length airports \<le> 25 * 25"
      using N unfolding MAXN_def by (intro mult_le_mono) simp_all
    then show ?thesis
      using build_nodes_length_le [of "real_of_int R / EARTH_R" airports] N unfolding MAXN_def by simp
  qed
  have u': "u < length ?V" and v': "v < length ?V"
    using u v build_nodes_length [of airports "real_of_int R / EARTH_R"] by simp_all
  have "g_fw (length ?V) ?D u v \<le> real (length ?V) * (4 * 6370)"
    using init_D_inv _ _ u' v'
  proof (rule g_fw_finite_bound)
    show "\<forall>a<length ?V. \<forall>b<length ?V. ?D a b < INF_c \<longrightarrow> ?D a b \<le> 4 * 6370"
      using init_D_finite_le by blast
    show "(0::real) \<le> 4 * 6370" by simp
    show "g_fw (length ?V) ?D u v < INF_c" using f unfolding e .
  qed
  moreover have "real (length ?V) * (4 * 6370) \<le> 1275 * (4 * 6370)"
    using n by simp
  ultimately show ?thesis unfolding e by simp
qed




lemma answer_query_scenario_impossible_iff:
  assumes N: "length airports \<le> MAXN" and s: "s < length airports" and t: "t < length airports"
  shows "answer_query (scenario_D R airports) (length airports) s t c = Impossible \<longleftrightarrow>
         \<not> (leg_c (scenario_D R airports) (length airports) c)\<^sup>*\<^sup>* s t"
  using scenario_D_nonneg_all s t
proof (rule answer_query_impossible_iff)
  show "(0::real) \<le> 10 ^ 8" by simp
  show "\<forall>u<length airports. \<forall>v<length airports.
          scenario_D R airports u v < INF_c \<longrightarrow> scenario_D R airports u v \<le> 10 ^ 8"
    using scenario_D_finite_bound [OF N] by blast
  have "real (length airports + 1) \<le> 26" using N unfolding MAXN_def by simp
  then have "real (length airports + 1) * 10 ^ 8 \<le> 26 * 10 ^ 8" by simp
  moreover have "(26 * 10 ^ 8 :: real) < INF_c / 2" by (simp add: INF_c_def)
  ultimately show "real (length airports + 1) * 10 ^ 8 < INF_c / 2" by simp
qed




section \<open>The safe-arc test against the interval sweep of the specification\<close>



text \<open>The angle and the gathered intervals of a node pair of \<^verbatim>\<open>main.c\<close>.\<close>

definition theta_of :: "Vec \<Rightarrow> Vec \<Rightarrow> real" where
  "theta_of Va Vb = arccos (clamp1 (dot Va Vb))"



lemma sweep_inner_ge: "best \<le> fst (sweep_inner reach best ivs)"
proof (induction ivs arbitrary: best)
  case Nil
  show ?case by simp
next
  case (Cons iv ivs)
  have "best \<le> (if snd iv > best then snd iv else best)" by simp
  also have "\<dots> \<le> fst (sweep_inner reach (if snd iv > best then snd iv else best) ivs)"
    by (rule Cons.IH)
  finally show ?case by simp
qed















lemma theta_of_quarter: "theta_of \<lparr>vx = 1, vy = 0, vz = 0\<rparr> \<lparr>vx = 0, vy = 1, vz = 0\<rparr> = pi / 2"
  by (simp add: theta_of_def dot_def clamp1_def)







section \<open>Coincident vertices\<close>

lemma build_nodes_twice:
  "build_nodes alpha [\<lparr>vx = 1, vy = 0, vz = 0\<rparr>, \<lparr>vx = 1, vy = 0, vz = 0\<rparr>]
     = [\<lparr>vx = 1, vy = 0, vz = 0\<rparr>, \<lparr>vx = 1, vy = 0, vz = 0\<rparr>]"
proof -
  have i: "index_pairs (Suc (Suc 0)) = [(0, Suc 0)]"
    by (simp add: index_pairs_def upt_rec)
  have c: "circle_pair alpha (cos alpha) \<lparr>vx = 1, vy = 0, vz = 0\<rparr> \<lparr>vx = 1, vy = 0, vz = 0\<rparr> = []"
  proof -
    have "(0::real) \<le> 1 / 10 ^ 12" by simp
    then have "\<not> (1::real) < cos (2 * alpha) - 1 / 10 ^ 12"
      using cos_le_one [of "2 * alpha"] by linarith
    then show ?thesis by (simp add: circle_pair_def dot_def Let_def)
  qed
  show ?thesis by (simp add: build_nodes_def i c)
qed

lemma pair_edge_same: "pair_edge airports cosA \<lparr>vx = 1, vy = 0, vz = 0\<rparr> \<lparr>vx = 1, vy = 0, vz = 0\<rparr> = None"
  by (simp add: pair_edge_def dot_def clamp1_def acos_c_def)

lemma init_D_twice:
  "init_D airports cosA [\<lparr>vx = 1, vy = 0, vz = 0\<rparr>, \<lparr>vx = 1, vy = 0, vz = 0\<rparr>] 0 (Suc 0) = INF_c"
  by (simp add: init_D_def pair_edge_same)

lemma g_fw_finite_connected:
  assumes "fw_inv n 0 D" and "i < n" and "j < n" and "g_fw n D i j < INF_c"
  shows "(edge_c n D)\<^sup>*\<^sup>* i j"
  using g_fw_finite_connected_prefix [OF assms(1), of n] assms(2-4) unfolding g_fw_def by blast


lemma scenario_D_twice:
  "\<not> scenario_D R [\<lparr>vx = 1, vy = 0, vz = 0\<rparr>, \<lparr>vx = 1, vy = 0, vz = 0\<rparr>] 0 (Suc 0) < INF_c"
proof
  let ?P = "[\<lparr>vx = 1, vy = 0, vz = 0\<rparr>, \<lparr>vx = 1, vy = 0, vz = 0\<rparr>]"
  let ?D = "init_D ?P (cos (real_of_int R / EARTH_R)) ?P"
  assume f: "scenario_D R ?P 0 (Suc 0) < INF_c"
  have e: "scenario_D R ?P = g_fw 2 ?D"
    unfolding scenario_D_def Let_def build_nodes_twice
    using floyd_warshall_eq [OF init_D_inv init_D_bounded, of 2] by (simp add: numeral_2_eq_2)
  have "(edge_c 2 ?D)\<^sup>*\<^sup>* 0 (Suc 0)"
    using init_D_inv _ _ f [unfolded e] by (rule g_fw_finite_connected) simp_all
  moreover have "x = 0" if "(edge_c 2 ?D)\<^sup>*\<^sup>* 0 x" for x
    using that
  proof (induction rule: rtranclp_induct)
    case base
    show ?case by simp
  next
    case (step y z)
    then have "edge_c 2 ?D 0 z" by simp
    then have "z < 2" and "?D 0 z < INF_c" by (simp_all add: edge_c_def)
    then show ?case using init_D_twice [of ?P "cos (real_of_int R / EARTH_R)"]
      by (cases z) (auto simp: less_Suc_eq numeral_2_eq_2)
  qed
  ultimately show False by blast
qed

lemma normalize_p_x: "normalize_p \<lparr>px = 6370, py = 0, pz = 0\<rparr> = \<lparr>px = 1, py = 0, pz = 0\<rparr>"
proof -
  have s: "sqrt (40576900::real) = 6370" by (rule real_sqrt_unique) simp_all
  have e: "\<not> (6370::real) < EPS" by (simp add: EPS_def)
  show ?thesis using e by (simp add: normalize_p_def magnitude_def dot_p_def divide_p_def s Let_def)
qed

lemma dist_xyz_same: "dist_xyz \<lparr>px = 6370, py = 0, pz = 0\<rparr> \<lparr>px = 6370, py = 0, pz = 0\<rparr> = 0"
  by (simp add: dist_xyz_def normalize_p_x dot_p_def clamp_pm1_def Let_def)

text \<open>
  Claim C9, evaluated. Two airports at the same place, \<open>(1, 0, 0)\<close>: \<^verbatim>\<open>main.c\<close> skips the
  pair (\<^verbatim>\<open>theta_ab < 1e-12\<close>, \<^verbatim>\<open>continue\<close>), the direct distance stays \<^verbatim>\<open>INF\<close>, and a query
  from the one to the other is answered \<^verbatim>\<open>impossible\<close>, for every radius and every
  capacity. \<^verbatim>\<open>main.cpp\<close> finds the zero-length arc safe, with no airport disk at all,
  and connects the two vertices at the distance 0.
\<close>

theorem coincident_pair_evaluated:
  "init_D airports cosA [\<lparr>vx = 1, vy = 0, vz = 0\<rparr>, \<lparr>vx = 1, vy = 0, vz = 0\<rparr>] 0 1 = INF_c \<and>
   answer_query (scenario_D R [\<lparr>vx = 1, vy = 0, vz = 0\<rparr>, \<lparr>vx = 1, vy = 0, vz = 0\<rparr>])
     (length [\<lparr>vx = 1, vy = 0, vz = 0\<rparr>, \<lparr>vx = 1, vy = 0, vz = 0\<rparr>]) 0 1 c = Impossible \<and>
   is_arc_safe \<lparr>px = 6370, py = 0, pz = 0\<rparr> \<lparr>px = 6370, py = 0, pz = 0\<rparr> [] Rs \<and>
   adj_aux_init [\<lparr>px = 6370, py = 0, pz = 0\<rparr>, \<lparr>px = 6370, py = 0, pz = 0\<rparr>] [] Rs 0 1 = Fin 0"
proof (intro conjI)
  let ?P = "[\<lparr>vx = 1, vy = 0, vz = 0\<rparr>, \<lparr>vx = 1, vy = 0, vz = 0\<rparr>]"
  show "init_D airports cosA ?P 0 1 = INF_c" using init_D_twice by simp
  have "x = 0" if "(leg_c (scenario_D R ?P) (length ?P) c)\<^sup>*\<^sup>* 0 x" for x
    using that
  proof (induction rule: rtranclp_induct)
    case base
    show ?case by simp
  next
    case (step y z)
    then have "leg_c (scenario_D R ?P) (length ?P) c 0 z" by simp
    then have "z < 2" and "scenario_D R ?P 0 z < INF_c" by (simp_all add: leg_c_def)
    then show ?case using scenario_D_twice [of R]
      by (cases z) (auto simp: less_Suc_eq numeral_2_eq_2)
  qed
  then have "\<not> (leg_c (scenario_D R ?P) (length ?P) c)\<^sup>*\<^sup>* 0 1" by fastforce
  moreover have "answer_query (scenario_D R ?P) (length ?P) 0 1 c = Impossible \<longleftrightarrow>
        \<not> (leg_c (scenario_D R ?P) (length ?P) c)\<^sup>*\<^sup>* 0 1"
    by (rule answer_query_scenario_impossible_iff) (simp_all add: MAXN_def)
  ultimately show "answer_query (scenario_D R ?P) (length ?P) 0 1 c = Impossible" by simp
  have z: "(0::real) < EPS" by (simp add: EPS_def)
  show "is_arc_safe \<lparr>px = 6370, py = 0, pz = 0\<rparr> \<lparr>px = 6370, py = 0, pz = 0\<rparr> [] Rs"
    using z by (simp add: is_arc_safe_def dist_xyz_same)
  show "adj_aux_init [\<lparr>px = 6370, py = 0, pz = 0\<rparr>, \<lparr>px = 6370, py = 0, pz = 0\<rparr>] [] Rs 0 1 = Fin 0"
    using z by (simp add: adj_aux_init_def dist_xyz_same)
qed

section \<open>The coverage analyzer of main.c against its own comments\<close>

text \<open>
  The point of the arc from \<open>Va\<close> to \<open>Vb\<close> at the angle \<open>t\<close>, as the comments of
  \<^verbatim>\<open>main.c\<close> define it (line 140: \<^verbatim>\<open>U=V[a], W=(V[b]-U*cab)/sin\<close>; line 150:
  \<^verbatim>\<open>cos t U + sin t W\<close>), and the parameters at which the arc is within the disk of the
  airport \<open>Ai\<close> (\<^verbatim>\<open>dot(P(t),Ai) >= cosA\<close>, lines 131 and 132).
\<close>

definition arc_point :: "Vec \<Rightarrow> Vec \<Rightarrow> real \<Rightarrow> Vec" where
  "arc_point Va Vb t =
     addv (scale Va (cos t))
          (scale (scale (subv Vb (scale Va (clamp1 (dot Va Vb)))) (1 / sin (theta_of Va Vb))) (sin t))"

definition covered_param :: "real \<Rightarrow> Vec \<Rightarrow> Vec \<Rightarrow> Vec \<Rightarrow> real \<Rightarrow> bool" where
  "covered_param cosA Va Vb Ai t \<longleftrightarrow>
     0 \<le> t \<and> t \<le> theta_of Va Vb \<and> dot (arc_point Va Vb t) Ai \<ge> cosA"

lemma sqrt_half: "sqrt (1 / 2) = sqrt 2 / 2"
  by (rule real_sqrt_unique) (simp_all add: power2_eq_square)

lemma cos_tenth_gt: "sqrt 2 / 2 < cos (1 / 10)"
proof -
  have "(1::real) / 10 < pi / 4" using pi_ge_two by simp
  moreover have "pi / 4 \<le> pi" by simp
  ultimately have "cos (pi / 4) < cos (1 / 10)" by (intro cos_monotone_0_pi) simp_all
  then show ?thesis by (simp add: cos_45)
qed

text \<open>
  Claim C2, evaluated. The arc from \<open>(1, 0, 0)\<close> to \<open>(0, 1, 0)\<close> and the airport at its
  midpoint, with the angular radius \<open>0.1\<close> (\<open>R = 637\<close>): the midpoint of the arc, at the
  parameter \<open>pi / 4\<close>, is the airport itself and so is within its disk, but the analyzer
  of \<^verbatim>\<open>main.c\<close> returns no interval for this disk. Its \<^verbatim>\<open>abW\<close> is \<^verbatim>\<open>(V[b] - V[a]) / sin\<close>
  where the comment has \<^verbatim>\<open>(V[b] - U*cab) / sin\<close>, so \<^verbatim>\<open>dw\<close> is 0 and \<^verbatim>\<open>Rv\<close> is below \<^verbatim>\<open>cosA\<close>.
\<close>

theorem analyzer_misses_midpoint:
  "disk_intervals \<lparr>vx = 1, vy = 0, vz = 0\<rparr>
     (scale (subv \<lparr>vx = 0, vy = 1, vz = 0\<rparr> \<lparr>vx = 1, vy = 0, vz = 0\<rparr>)
        (1 / sin (theta_of \<lparr>vx = 1, vy = 0, vz = 0\<rparr> \<lparr>vx = 0, vy = 1, vz = 0\<rparr>)))
     (theta_of \<lparr>vx = 1, vy = 0, vz = 0\<rparr> \<lparr>vx = 0, vy = 1, vz = 0\<rparr>)
     (cos (real_of_int 637 / EARTH_R))
     \<lparr>vx = sqrt 2 / 2, vy = sqrt 2 / 2, vz = 0\<rparr> = [] \<and>
   covered_param (cos (real_of_int 637 / EARTH_R)) \<lparr>vx = 1, vy = 0, vz = 0\<rparr> \<lparr>vx = 0, vy = 1, vz = 0\<rparr>
     \<lparr>vx = sqrt 2 / 2, vy = sqrt 2 / 2, vz = 0\<rparr> (pi / 4)"
proof
  have a: "real_of_int 637 / EARTH_R = 1 / 10" by (simp add: EARTH_R_def)
  have rv: "sqrt (sqrt 2 / 2 * (sqrt 2 / 2)) = sqrt 2 / 2"
    by (rule real_sqrt_unique) (simp_all add: power2_eq_square)
  have small: "\<not> sqrt 2 / 2 < 1 / 10 ^ 15"
  proof -
    have "(1::real) \<le> sqrt 2" by simp
    moreover have "(1::real) / 10 ^ 15 < 1 / 2" by simp
    ultimately show ?thesis by linarith
  qed
  show "disk_intervals \<lparr>vx = 1, vy = 0, vz = 0\<rparr>
     (scale (subv \<lparr>vx = 0, vy = 1, vz = 0\<rparr> \<lparr>vx = 1, vy = 0, vz = 0\<rparr>)
        (1 / sin (theta_of \<lparr>vx = 1, vy = 0, vz = 0\<rparr> \<lparr>vx = 0, vy = 1, vz = 0\<rparr>)))
     (theta_of \<lparr>vx = 1, vy = 0, vz = 0\<rparr> \<lparr>vx = 0, vy = 1, vz = 0\<rparr>)
     (cos (real_of_int 637 / EARTH_R))
     \<lparr>vx = sqrt 2 / 2, vy = sqrt 2 / 2, vz = 0\<rparr> = []"
    unfolding a theta_of_quarter
    using cos_tenth_gt small
    by (simp add: disk_intervals_def dot_def subv_def scale_def rv sqrt_half Let_def)
  have "cos (1 / 10 :: real) \<le> 1" by simp
  then show "covered_param (cos (real_of_int 637 / EARTH_R)) \<lparr>vx = 1, vy = 0, vz = 0\<rparr> \<lparr>vx = 0, vy = 1, vz = 0\<rparr>
     \<lparr>vx = sqrt 2 / 2, vy = sqrt 2 / 2, vz = 0\<rparr> (pi / 4)"
    unfolding a covered_param_def theta_of_quarter arc_point_def
    by (simp add: theta_of_quarter dot_def clamp1_def scale_def subv_def addv_def cos_45 sin_45)
qed

section \<open>Arguments of acos\<close>

lemma pi_ge_three: "3 \<le> pi"
proof -
  have "sin (pi / 6) \<le> pi / 6" by (rule sin_x_le_x) simp
  then show ?thesis by (simp add: sin_30)
qed

lemma cos_near_third:
  fixes h :: real
  assumes "0 < h" and "h < 1"
  shows "1 / 2 < cos (pi / 3 - h) \<and> cos (pi / 3 - h) \<le> 1 / 2 + h"
proof
  have "h < pi / 3" using assms(2) pi_ge_three by simp
  then have "cos (pi / 3) < cos (pi / 3 - h)"
    using assms(1) by (intro cos_monotone_0_pi) simp_all
  then show "1 / 2 < cos (pi / 3 - h)" by (simp add: cos_60)
  have e: "cos (pi / 3 - h) = 1 / 2 * cos h + sqrt 3 / 2 * sin h"
    by (simp add: cos_diff cos_60 sin_60)
  have s0: "0 \<le> sin h" using assms pi_ge_three by (intro sin_ge_zero) simp_all
  have s1: "sin h \<le> h" using assms(1) by (intro sin_x_le_x) simp
  have "sqrt 3 \<le> 2" by (rule real_le_lsqrt) simp_all
  then have "sqrt 3 / 2 * sin h \<le> 1 * sin h" using s0 by (intro mult_right_mono) simp_all
  moreover have "1 / 2 * cos h \<le> 1 / 2" by simp
  ultimately show "cos (pi / 3 - h) \<le> 1 / 2 + h" using s1 unfolding e by linarith
qed

lemma beta_of_tangent: "beta_of (pi / 3 - 4 / 10 ^ 10) (2 * pi / 3) = None"
proof -
  define x where "x = cos (pi / 3 - 4 / 10 ^ 10)"
  have b: "1 / 2 < x \<and> x \<le> 1 / 2 + 4 / 10 ^ 10"
    unfolding x_def by (rule cos_near_third) simp_all
  have d: "cos (2 * pi / 3 / 2) = 1 / 2" using cos_60 by simp
  have f: "fdiv x (1 / 2) = Num (2 * x)" by (simp add: fdiv_def)
  have n1: "\<not> (2 * x > 1 + EPS \<or> 2 * x < - 1 - EPS)" using b by (simp add: EPS_def)
  have n2: "\<not> (- 1 \<le> 2 * x \<and> 2 * x \<le> 1)" using b by simp
  show ?thesis
    unfolding beta_of_def cos_beta_arg_def d x_def [symmetric] f
    using n1 n2 by (simp add: acos_c_def)
qed

lemma normalize_p_120:
  "normalize_p \<lparr>px = - 3185, py = 3185 * sqrt 3, pz = 0\<rparr> = \<lparr>px = - (1 / 2), py = sqrt 3 / 2, pz = 0\<rparr>"
proof -
  have m: "magnitude \<lparr>px = - 3185, py = 3185 * sqrt 3, pz = 0\<rparr> = 6370"
    unfolding magnitude_def by (rule real_sqrt_unique) (simp_all add: dot_p_def power2_eq_square)
  have e: "\<not> (6370::real) < EPS" by (simp add: EPS_def)
  show ?thesis using e by (simp add: normalize_p_def m divide_p_def Let_def)
qed

lemma arccos_minus_half: "arccos (- (1 / 2)) = 2 * pi / 3"
proof -
  have "arccos (- (1 / 2)) = pi - arccos (1 / 2)" by (rule arccos_minus) simp_all
  then show ?thesis by (simp add: arccos_one_half)
qed


lemma intersections_tangent_nan:
  "get_small_circle_intersections \<lparr>px = 6370, py = 0, pz = 0\<rparr> \<lparr>px = - 3185, py = 3185 * sqrt 3, pz = 0\<rparr>
     (R_earth * (pi / 3 - 4 / 10 ^ 10)) = [None]"
proof -
  have r: "R_earth * (pi / 3 - 4 / 10 ^ 10) / R_earth = pi / 3 - 4 / 10 ^ 10"
    by (simp add: R_earth_def)
  have d: "arccos (clamp_pm1 (dot_p \<lparr>px = 1, py = 0, pz = 0\<rparr> \<lparr>px = - (1 / 2), py = sqrt 3 / 2, pz = 0\<rparr>))
             = 2 * pi / 3"
    by (simp add: dot_p_def clamp_pm1_def arccos_minus_half)
  have g1: "\<not> 2 * pi / 3 > 2 * (pi / 3 - 4 / 10 ^ 10) + EPS" by (simp add: EPS_def)
  have g2: "\<not> 2 * pi / 3 < EPS"
  proof -
    have "EPS < 1" by (simp add: EPS_def)
    moreover have "2 \<le> 2 * pi / 3" using pi_ge_three by simp
    ultimately show ?thesis by linarith
  qed
  show ?thesis
    unfolding get_small_circle_intersections_def normalize_p_x normalize_p_120 r d Let_def
    by (simp only: g1 g2 if_False beta_of_tangent option.simps)
qed

lemma cos_large_radius: "cos (real_of_int 18000 / EARTH_R) < - (1 / 2)"
proof -
  have a: "real_of_int 18000 / EARTH_R = 1800 / 637" by (simp add: EARTH_R_def)
  have "2 * pi / 3 < 1800 / 637" using pi_less_4 by simp
  moreover have "(1800::real) / 637 \<le> pi" using pi_ge_three by simp
  ultimately have "cos (1800 / 637) < cos (2 * pi / 3)" by (intro cos_monotone_0_pi) simp_all
  then show ?thesis unfolding a by (simp add: cos_120)
qed

lemma Rv_example: "sqrt (98 / 625) = 7 * sqrt 2 / 25"
  by (rule real_sqrt_unique) (simp_all add: power2_eq_square)

lemma sqrt2_bounds: "1 \<le> sqrt 2 \<and> sqrt 2 \<le> 3 / 2"
proof
  show "1 \<le> sqrt 2" by simp
  show "sqrt 2 \<le> 3 / 2" by (rule real_le_lsqrt) (simp_all add: power2_eq_square)
qed

text \<open>
  Claim C8, evaluated. \<^verbatim>\<open>main.cpp\<close>: two airports on the equator, 120 degrees apart, and a
  radius just below a third of \<open>pi\<close> times the Earth radius, so that the two circles are
  tangent within the tolerance: \<^verbatim>\<open>cos_beta_arg\<close> is above 1 but not above \<open>1 + EPS\<close>, the
  clamp of lines 136 to 140 does not run, \<^verbatim>\<open>acos\<close> returns NaN and the intersector returns
  one point of NaN coordinates. \<^verbatim>\<open>main.c\<close>: with \<open>R = 18000\<close>, \<^verbatim>\<open>cosA\<close> is negative, both
  guards of lines 157 and 158 pass for an airport far from the great circle of the
  arc, and the quotient \<^verbatim>\<open>cosA / Rv\<close> passed to \<^verbatim>\<open>acos\<close> at line 160 is below \<open>- 1\<close>.
\<close>

theorem acos_out_of_domain:
  "get_small_circle_intersections \<lparr>px = 6370, py = 0, pz = 0\<rparr> \<lparr>px = - 3185, py = 3185 * sqrt 3, pz = 0\<rparr>
     (R_earth * (pi / 3 - 4 / 10 ^ 10)) = [None] \<and>
   (let abU = \<lparr>vx = 1, vy = 0, vz = 0\<rparr>;
        abW = scale (subv \<lparr>vx = 0, vy = 1, vz = 0\<rparr> abU)
                (1 / sin (theta_of \<lparr>vx = 1, vy = 0, vz = 0\<rparr> \<lparr>vx = 0, vy = 1, vz = 0\<rparr>));
        Ai = \<lparr>vx = 7 / 25, vy = 0, vz = 24 / 25\<rparr>;
        cosA = cos (real_of_int 18000 / EARTH_R);
        du = dot abU Ai;
        dw = dot abW Ai;
        Rv = sqrt (du * du + dw * dw)
    in \<not> Rv < 1 / 10 ^ 15 \<and> \<not> Rv < cosA \<and> cosA / Rv < - 1 \<and> acos_c (cosA / Rv) = None)"
proof
  show "get_small_circle_intersections \<lparr>px = 6370, py = 0, pz = 0\<rparr> \<lparr>px = - 3185, py = 3185 * sqrt 3, pz = 0\<rparr>
     (R_earth * (pi / 3 - 4 / 10 ^ 10)) = [None]"
    by (rule intersections_tangent_nan)
  define c where "c = cos (real_of_int 18000 / EARTH_R)"
  define r where "r = sqrt (98 / 625 :: real)"
  have c: "c < - (1 / 2)" unfolding c_def by (rule cos_large_radius)
  have r1: "7 / 25 \<le> r" and r2: "r \<le> 21 / 50" using sqrt2_bounds by (simp_all add: r_def Rv_example)
  have g1: "\<not> r < 1 / 10 ^ 15" using r1 by simp
  have g2: "\<not> r < c" using r1 c by simp
  have q: "c / r < - 1"
  proof -
    have "0 < r" using r1 by simp
    moreover have "c < - r" using c r2 by simp
    ultimately show ?thesis by (simp add: field_simps)
  qed
  then have n: "acos_c (c / r) = None" by (simp add: acos_c_def)
  show "let abU = \<lparr>vx = 1, vy = 0, vz = 0\<rparr>;
        abW = scale (subv \<lparr>vx = 0, vy = 1, vz = 0\<rparr> abU)
                (1 / sin (theta_of \<lparr>vx = 1, vy = 0, vz = 0\<rparr> \<lparr>vx = 0, vy = 1, vz = 0\<rparr>));
        Ai = \<lparr>vx = 7 / 25, vy = 0, vz = 24 / 25\<rparr>;
        cosA = cos (real_of_int 18000 / EARTH_R);
        du = dot abU Ai;
        dw = dot abW Ai;
        Rv = sqrt (du * du + dw * dw)
    in \<not> Rv < 1 / 10 ^ 15 \<and> \<not> Rv < cosA \<and> cosA / Rv < - 1 \<and> acos_c (cosA / Rv) = None"
    unfolding Let_def theta_of_quarter c_def [symmetric]
    using g1 g2 q n unfolding r_def
    by (simp add: dot_def subv_def scale_def)
qed

section \<open>The circle intersectors\<close>

text \<open>
  The names of \<^verbatim>\<open>get_small_circle_intersections\<close> for its angles, its midpoint and the
  direction orthogonal to it.
\<close>

definition r_ang_of :: "real \<Rightarrow> real" where
  "r_ang_of R_sphere = R_sphere / R_earth"

definition d_ang_of :: "Point \<Rightarrow> Point \<Rightarrow> real" where
  "d_ang_of center1 center2 =
     arccos (clamp_pm1 (dot_p (normalize_p center1) (normalize_p center2)))"

definition m_norm_of :: "Point \<Rightarrow> Point \<Rightarrow> Point" where
  "m_norm_of center1 center2 =
     point_at_angle_on_great_circle (normalize_p center1) (normalize_p center2)
       (d_ang_of center1 center2 / 2)"

definition ortho_m_norm_of :: "Point \<Rightarrow> Point \<Rightarrow> Point" where
  "ortho_m_norm_of center1 center2 =
     normalize_p (cross_p (m_norm_of center1 center2)
                          (minus_p (normalize_p center1) (normalize_p center2)))"

definition scaled :: "Point \<Rightarrow> Point" where
  "scaled p = \<lparr>px = px p * R_earth, py = py p * R_earth, pz = pz p * R_earth\<rparr>"

lemma intersections_cases:
  "get_small_circle_intersections center1 center2 R_sphere =
     (if d_ang_of center1 center2 > 2 * r_ang_of R_sphere + EPS \<or> d_ang_of center1 center2 < EPS then []
      else case beta_of (r_ang_of R_sphere) (d_ang_of center1 center2) of
             None \<Rightarrow> [None]
           | Some beta \<Rightarrow>
               if beta > EPS
               then [Some (scaled (plus_p (times_p (m_norm_of center1 center2) (cos beta))
                                          (times_p (ortho_m_norm_of center1 center2) (sin beta)))),
                     Some (scaled (minus_p (times_p (m_norm_of center1 center2) (cos beta))
                                           (times_p (ortho_m_norm_of center1 center2) (sin beta))))]
               else [Some (scaled (plus_p (times_p (m_norm_of center1 center2) (cos beta))
                                          (times_p (ortho_m_norm_of center1 center2) (sin beta))))])"
  by (simp add: get_small_circle_intersections_def r_ang_of_def d_ang_of_def m_norm_of_def
      ortho_m_norm_of_def scaled_def Let_def split: option.splits)

text \<open>The names of \<^verbatim>\<open>main.c\<close>, lines 99 to 117, for the point \<^verbatim>\<open>p\<close> and the offset \<^verbatim>\<open>h*n\<close>.\<close>

definition p_of :: "real \<Rightarrow> Vec \<Rightarrow> Vec \<Rightarrow> Vec" where
  "p_of cosA u v =
     (let cuv = dot u v;
          Delta = 1 - cuv * cuv;
          k = cosA * (1 - cuv) / Delta
      in \<lparr>vx = k * (vx u + vx v), vy = k * (vy u + vy v), vz = k * (vz u + vz v)\<rparr>)"

definition h_of :: "real \<Rightarrow> Vec \<Rightarrow> Vec \<Rightarrow> real" where
  "h_of cosA u v =
     (let p = p_of cosA u v;
          h2 = 1 - dot p p
      in sqrt (if h2 < 0 then 0 else h2))"

definition hn_of :: "real \<Rightarrow> Vec \<Rightarrow> Vec \<Rightarrow> Vec" where
  "hn_of cosA u v = scale (scale (cross u v) (1 / norm_v (cross u v))) (h_of cosA u v)"

lemma circle_pair_cases:
  "circle_pair alpha cosA u v =
     (if dot u v < cos (2 * alpha) - 1 / 10 ^ 12 \<or> 1 - dot u v * dot u v < 1 / 10 ^ 15 \<or>
         norm_v (cross u v) < 1 / 10 ^ 15
      then []
      else [normalize_v (addv (p_of cosA u v) (hn_of cosA u v)),
            normalize_v (subv (p_of cosA u v) (hn_of cosA u v))])"
  by (simp add: circle_pair_def p_of_def h_of_def hn_of_def Let_def)

lemma circle_pair_empty_iff:
  "circle_pair alpha cosA u v = [] \<longleftrightarrow>
     dot u v < cos (2 * alpha) - 1 / 10 ^ 12 \<or> 1 - dot u v * dot u v < 1 / 10 ^ 15 \<or>
     norm_v (cross u v) < 1 / 10 ^ 15"
  by (simp add: circle_pair_cases)


lemma circle_pair_quarter:
  "circle_pair (pi / 4) (cos (pi / 4)) \<lparr>vx = 1, vy = 0, vz = 0\<rparr> \<lparr>vx = 0, vy = 1, vz = 0\<rparr> =
     [\<lparr>vx = sqrt 2 / 2, vy = sqrt 2 / 2, vz = 0\<rparr>, \<lparr>vx = sqrt 2 / 2, vy = sqrt 2 / 2, vz = 0\<rparr>]"
proof -
  have c2: "cos (2 * (pi / 4)) = 0" by simp
  have p: "p_of (sqrt 2 / 2) \<lparr>vx = 1, vy = 0, vz = 0\<rparr> \<lparr>vx = 0, vy = 1, vz = 0\<rparr>
             = \<lparr>vx = sqrt 2 / 2, vy = sqrt 2 / 2, vz = 0\<rparr>"
    by (simp add: p_of_def dot_def Let_def)
  have pp: "dot \<lparr>vx = sqrt 2 / 2, vy = sqrt 2 / 2, vz = 0\<rparr> \<lparr>vx = sqrt 2 / 2, vy = sqrt 2 / 2, vz = 0\<rparr> = 1"
    by (simp add: dot_def)
  have h: "h_of (sqrt 2 / 2) \<lparr>vx = 1, vy = 0, vz = 0\<rparr> \<lparr>vx = 0, vy = 1, vz = 0\<rparr> = 0"
    by (simp add: h_of_def p pp Let_def)
  have n: "norm_v (cross \<lparr>vx = 1, vy = 0, vz = 0\<rparr> \<lparr>vx = 0, vy = 1, vz = 0\<rparr>) = 1"
    by (simp add: norm_v_def cross_def dot_def)
  have hn: "hn_of (sqrt 2 / 2) \<lparr>vx = 1, vy = 0, vz = 0\<rparr> \<lparr>vx = 0, vy = 1, vz = 0\<rparr>
              = \<lparr>vx = 0, vy = 0, vz = 0\<rparr>"
    by (simp add: hn_of_def h scale_def)
  have nz: "normalize_v \<lparr>vx = sqrt 2 / 2, vy = sqrt 2 / 2, vz = 0\<rparr> = \<lparr>vx = sqrt 2 / 2, vy = sqrt 2 / 2, vz = 0\<rparr>"
    by (simp add: normalize_v_def norm_v_def pp scale_def Let_def)
  show ?thesis
    unfolding circle_pair_cases cos_45 c2 p hn n
    by (simp add: dot_def addv_def subv_def nz)
qed


lemma sin_ge_x_cos:
  fixes x :: real
  assumes "0 \<le> x" "x \<le> pi"
  shows "x * cos x \<le> sin x"
proof -
  have "sin 0 - 0 * cos 0 \<le> sin x - x * cos x"
  proof (rule DERIV_nonneg_imp_nondecreasing [OF assms(1)])
    fix t :: real
    assume t: "0 \<le> t" "t \<le> x"
    have d: "((\<lambda>t. sin t - t * cos t) has_real_derivative t * sin t) (at t)"
      by (auto intro!: derivative_eq_intros)
    have "0 \<le> sin t" using t assms by (intro sin_ge_zero) simp_all
    then have "0 \<le> t * sin t" using t by simp
    then show "\<exists>y. ((\<lambda>t. sin t - t * cos t) has_real_derivative y) (at t) \<and> 0 \<le> y"
      using d by blast
  qed
  then show ?thesis by simp
qed

lemma sin_ge_half:
  fixes x :: real
  assumes "0 \<le> x" "x \<le> 1"
  shows "x / 2 \<le> sin x"
proof -
  have p: "3 \<le> pi" by (rule pi_ge_three)
  have "cos (pi / 3) \<le> cos x"
    using assms p by (intro cos_monotone_0_pi_le) simp_all
  then have c: "1 / 2 \<le> cos x" by (simp add: cos_60)
  have "x * (1 / 2) \<le> x * cos x" using c assms(1) by (rule mult_left_mono)
  moreover have "x * cos x \<le> sin x" using assms p by (intro sin_ge_x_cos) simp_all
  ultimately show ?thesis by simp
qed

text \<open>
  Two centres at the angular distance \<open>2 alpha\<close>, on either side of the pole: lines 93
  to 124 append the pole twice.
\<close>

lemma circle_pair_tangent:
  assumes s: "1 / 10 ^ 7 \<le> sin (2 * alpha)" and c: "0 < cos alpha"
  shows "circle_pair alpha (cos alpha) \<lparr>vx = sin alpha, vy = 0, vz = cos alpha\<rparr>
           \<lparr>vx = - sin alpha, vy = 0, vz = cos alpha\<rparr> =
         [\<lparr>vx = 0, vy = 0, vz = 1\<rparr>, \<lparr>vx = 0, vy = 0, vz = 1\<rparr>]"
proof -
  let ?u = "\<lparr>vx = sin alpha, vy = 0, vz = cos alpha\<rparr>"
  let ?w = "\<lparr>vx = - sin alpha, vy = 0, vz = cos alpha\<rparr>"
  have sc: "(sin alpha)\<^sup>2 + (cos alpha)\<^sup>2 = 1" by simp
  have d: "dot ?u ?w = cos (2 * alpha)"
    by (simp add: dot_def cos_double power2_eq_square)
  have s2: "sin (2 * alpha) * sin (2 * alpha) = 1 - cos (2 * alpha) * cos (2 * alpha)"
    using sin_cos_squared_add [of "2 * alpha"] by (simp add: power2_eq_square algebra_simps)
  have big: "1 / 10 ^ 7 * (1 / 10 ^ 7) \<le> sin (2 * alpha) * sin (2 * alpha)"
    using s by (intro mult_mono) simp_all
  have g2: "\<not> 1 - cos (2 * alpha) * cos (2 * alpha) < 1 / 10 ^ 15"
    using big unfolding s2 by simp
  have Dpos: "0 < 1 - cos (2 * alpha) * cos (2 * alpha)"
    using big unfolding s2 by simp
  have n: "norm_v (cross ?u ?w) = sin (2 * alpha)"
  proof -
    have "0 \<le> sin (2 * alpha)" using s by simp
    then have "sqrt ((sin (2 * alpha))\<^sup>2) = sin (2 * alpha)" by simp
    moreover have "dot (cross ?u ?w) (cross ?u ?w) = (2 * sin alpha * cos alpha)\<^sup>2"
      by (simp add: cross_def dot_def power2_eq_square algebra_simps)
    then have "dot (cross ?u ?w) (cross ?u ?w) = (sin (2 * alpha))\<^sup>2"
      by (simp only: sin_double)
    ultimately show ?thesis by (simp add: norm_v_def)
  qed
  have g3: "\<not> sin (2 * alpha) < 1 / 10 ^ 15" using s by simp
  have one_plus: "1 + cos (2 * alpha) = 2 * cos alpha * cos alpha"
    using sc by (simp add: cos_double power2_eq_square)
  have k: "cos alpha * (1 - cos (2 * alpha)) / (1 - cos (2 * alpha) * cos (2 * alpha)) * (2 * cos alpha) = 1"
  proof -
    have f: "1 - cos (2 * alpha) * cos (2 * alpha) = (1 - cos (2 * alpha)) * (1 + cos (2 * alpha))"
      by (simp add: algebra_simps)
    have "cos alpha * (1 - cos (2 * alpha)) * (2 * cos alpha) = (1 - cos (2 * alpha)) * (1 + cos (2 * alpha))"
      unfolding one_plus by simp
    then show ?thesis using Dpos unfolding f by (simp add: field_simps)
  qed
  have p: "p_of (cos alpha) ?u ?w = \<lparr>vx = 0, vy = 0, vz = 1\<rparr>"
    using k by (simp add: p_of_def d Let_def algebra_simps)
  have h: "h_of (cos alpha) ?u ?w = 0"
    by (simp add: h_of_def p dot_def Let_def)
  have hn: "hn_of (cos alpha) ?u ?w = \<lparr>vx = 0, vy = 0, vz = 0\<rparr>"
    by (simp add: hn_of_def h scale_def)
  have nz: "normalize_v \<lparr>vx = 0, vy = 0, vz = 1\<rparr> = \<lparr>vx = 0, vy = 0, vz = 1\<rparr>"
    by (simp add: normalize_v_def norm_v_def dot_def scale_def Let_def)
  have g1: "\<not> cos (2 * alpha) < cos (2 * alpha) - 1 / 10 ^ 12" by simp
  show ?thesis
    unfolding circle_pair_cases d n p hn
    using g1 g2 g3 by (simp add: addv_def subv_def nz)
qed

lemma circle_pair_tangent_one:
  "circle_pair (real_of_int 1 / EARTH_R) (cos (real_of_int 1 / EARTH_R))
     \<lparr>vx = sin (real_of_int 1 / EARTH_R), vy = 0, vz = cos (real_of_int 1 / EARTH_R)\<rparr>
     \<lparr>vx = - sin (real_of_int 1 / EARTH_R), vy = 0, vz = cos (real_of_int 1 / EARTH_R)\<rparr> =
   [\<lparr>vx = 0, vy = 0, vz = 1\<rparr>, \<lparr>vx = 0, vy = 0, vz = 1\<rparr>]"
proof (rule circle_pair_tangent)
  have e: "2 * (real_of_int 1 / EARTH_R) = 1 / 3185" by (simp add: EARTH_R_def)
  have "(1 / 3185) / 2 \<le> sin (1 / 3185 :: real)" by (rule sin_ge_half) simp_all
  then show "1 / 10 ^ 7 \<le> sin (2 * (real_of_int 1 / EARTH_R))" unfolding e by simp
next
  have p: "3 \<le> pi" by (rule pi_ge_three)
  have "real_of_int 1 / EARTH_R = 1 / 6370" by (simp add: EARTH_R_def)
  moreover have "0 < cos (1 / 6370 :: real)"
    using p by (intro cos_gt_zero_pi) simp_all
  ultimately show "0 < cos (real_of_int 1 / EARTH_R)" by simp
qed

text \<open>
  Claim C3 as stated fails on \<^verbatim>\<open>main.c\<close>: where the two circles are tangent it returns two
  points, the same point twice, not one. First \<open>R = 1\<close> with two centres at the angular
  distance \<open>2 alpha\<close>, on either side of the pole; then two centres a quarter turn apart
  with the angular radius \<open>pi / 4\<close>.
\<close>

theorem tangent_circles_two_points:
  "circle_pair (real_of_int 1 / EARTH_R) (cos (real_of_int 1 / EARTH_R))
     \<lparr>vx = sin (real_of_int 1 / EARTH_R), vy = 0, vz = cos (real_of_int 1 / EARTH_R)\<rparr>
     \<lparr>vx = - sin (real_of_int 1 / EARTH_R), vy = 0, vz = cos (real_of_int 1 / EARTH_R)\<rparr> =
     [\<lparr>vx = 0, vy = 0, vz = 1\<rparr>, \<lparr>vx = 0, vy = 0, vz = 1\<rparr>] \<and>
   circle_pair (pi / 4) (cos (pi / 4)) \<lparr>vx = 1, vy = 0, vz = 0\<rparr> \<lparr>vx = 0, vy = 1, vz = 0\<rparr> =
     [\<lparr>vx = sqrt 2 / 2, vy = sqrt 2 / 2, vz = 0\<rparr>, \<lparr>vx = sqrt 2 / 2, vy = sqrt 2 / 2, vz = 0\<rparr>]"
  using circle_pair_tangent_one circle_pair_quarter by (rule conjI)

text \<open>
  Claim C3, amended. \<^verbatim>\<open>main.cpp\<close> returns no point when the angular distance \<open>d\<close> of the
  centres is above \<open>2 r + EPS\<close> or below \<open>EPS\<close>; otherwise one point when \<open>beta\<close> is at most
  \<open>EPS\<close> (or NaN), and the two points \<open>M cos beta + O sin beta\<close> and
  \<open>M cos beta - O sin beta\<close>, scaled to the Earth radius, when \<open>beta\<close> is above \<open>EPS\<close>.
  \<^verbatim>\<open>main.c\<close> returns no point when \<open>cos d\<close> is below \<open>cos (2 r) - 1e-12\<close>, when
  \<open>1 - (cos d)^2\<close> is below \<open>1e-15\<close> or when the cross product of the centres is shorter
  than \<open>1e-15\<close>; otherwise it always returns two points, \<open>p + h n\<close> and \<open>p - h n\<close>
  normalised, which are one and the same point when \<open>h = 0\<close>.
\<close>

theorem intersector_point_counts:
  "(d_ang_of c1 c2 > 2 * r_ang_of Rs + EPS \<or> d_ang_of c1 c2 < EPS \<longrightarrow>
      get_small_circle_intersections c1 c2 Rs = []) \<and>
   (\<not> (d_ang_of c1 c2 > 2 * r_ang_of Rs + EPS \<or> d_ang_of c1 c2 < EPS) \<and>
    beta_of (r_ang_of Rs) (d_ang_of c1 c2) = None \<longrightarrow>
      get_small_circle_intersections c1 c2 Rs = [None]) \<and>
   (\<not> (d_ang_of c1 c2 > 2 * r_ang_of Rs + EPS \<or> d_ang_of c1 c2 < EPS) \<and>
    beta_of (r_ang_of Rs) (d_ang_of c1 c2) = Some beta \<and> \<not> beta > EPS \<longrightarrow>
      get_small_circle_intersections c1 c2 Rs =
        [Some (scaled (plus_p (times_p (m_norm_of c1 c2) (cos beta))
                              (times_p (ortho_m_norm_of c1 c2) (sin beta))))]) \<and>
   (\<not> (d_ang_of c1 c2 > 2 * r_ang_of Rs + EPS \<or> d_ang_of c1 c2 < EPS) \<and>
    beta_of (r_ang_of Rs) (d_ang_of c1 c2) = Some beta \<and> beta > EPS \<longrightarrow>
      get_small_circle_intersections c1 c2 Rs =
        [Some (scaled (plus_p (times_p (m_norm_of c1 c2) (cos beta))
                              (times_p (ortho_m_norm_of c1 c2) (sin beta)))),
         Some (scaled (minus_p (times_p (m_norm_of c1 c2) (cos beta))
                               (times_p (ortho_m_norm_of c1 c2) (sin beta))))]) \<and>
   (circle_pair alpha cosA u v = [] \<longleftrightarrow>
      dot u v < cos (2 * alpha) - 1 / 10 ^ 12 \<or> 1 - dot u v * dot u v < 1 / 10 ^ 15 \<or>
      norm_v (cross u v) < 1 / 10 ^ 15) \<and>
   (circle_pair alpha cosA u v \<noteq> [] \<longrightarrow>
      circle_pair alpha cosA u v =
        [normalize_v (addv (p_of cosA u v) (hn_of cosA u v)),
         normalize_v (subv (p_of cosA u v) (hn_of cosA u v))]) \<and>
   (circle_pair alpha cosA u v \<noteq> [] \<and> h_of cosA u v = 0 \<longrightarrow>
      circle_pair alpha cosA u v =
        [normalize_v (p_of cosA u v), normalize_v (p_of cosA u v)])"
proof (intro conjI impI)
  show "circle_pair alpha cosA u v = [] \<longleftrightarrow>
      dot u v < cos (2 * alpha) - 1 / 10 ^ 12 \<or> 1 - dot u v * dot u v < 1 / 10 ^ 15 \<or>
      norm_v (cross u v) < 1 / 10 ^ 15"
    by (rule circle_pair_empty_iff)
next
  assume "circle_pair alpha cosA u v \<noteq> []"
  then show "circle_pair alpha cosA u v =
        [normalize_v (addv (p_of cosA u v) (hn_of cosA u v)),
         normalize_v (subv (p_of cosA u v) (hn_of cosA u v))]"
    unfolding circle_pair_cases by (simp split: if_splits)
next
  assume "circle_pair alpha cosA u v \<noteq> [] \<and> h_of cosA u v = 0"
  then have ne: "circle_pair alpha cosA u v \<noteq> []" and h: "h_of cosA u v = 0" by simp_all
  have "hn_of cosA u v = \<lparr>vx = 0, vy = 0, vz = 0\<rparr>" by (simp add: hn_of_def h scale_def)
  then have "addv (p_of cosA u v) (hn_of cosA u v) = p_of cosA u v"
    and "subv (p_of cosA u v) (hn_of cosA u v) = p_of cosA u v"
    by (simp_all add: addv_def subv_def)
  then show "circle_pair alpha cosA u v = [normalize_v (p_of cosA u v), normalize_v (p_of cosA u v)]"
    using ne unfolding circle_pair_cases by (simp split: if_splits)
qed (simp_all add: intersections_cases)


lemma normalize_p_y: "normalize_p \<lparr>px = 0, py = 6370, pz = 0\<rparr> = \<lparr>px = 0, py = 1, pz = 0\<rparr>"
proof -
  have s: "sqrt (40576900::real) = 6370" by (rule real_sqrt_unique) simp_all
  have e: "\<not> (6370::real) < EPS" by (simp add: EPS_def)
  show ?thesis using e by (simp add: normalize_p_def magnitude_def dot_p_def divide_p_def s Let_def)
qed

lemma d_ang_of_same: "d_ang_of \<lparr>px = 6370, py = 0, pz = 0\<rparr> \<lparr>px = 6370, py = 0, pz = 0\<rparr> = 0"
  by (simp add: d_ang_of_def normalize_p_x dot_p_def clamp_pm1_def)

lemma d_ang_of_quarter: "d_ang_of \<lparr>px = 6370, py = 0, pz = 0\<rparr> \<lparr>px = 0, py = 6370, pz = 0\<rparr> = pi / 2"
  by (simp add: d_ang_of_def normalize_p_x normalize_p_y dot_p_def clamp_pm1_def)

lemma r_ang_of_third: "r_ang_of (6370 * (pi / 3)) = pi / 3"
  by (simp add: r_ang_of_def R_earth_def)

lemma beta_of_quarter: "beta_of (pi / 3) (pi / 2) = Some (pi / 4)"
proof -
  have q: "pi / 2 / 2 = pi / 4" by simp
  have c: "cos (pi / 3) / cos (pi / 4) = sqrt 2 / 2"
    by (simp add: cos_60 cos_45 real_div_sqrt)
  have z: "cos (pi / 4) \<noteq> 0" by (simp add: cos_45)
  have b1: "sqrt 2 / 2 \<le> (1::real)" using sqrt2_less_2 by simp
  have b0: "- 1 \<le> sqrt 2 / (2::real)" by (rule order_trans [of _ 0]) simp_all
  have e: "(0::real) \<le> EPS" by (simp add: EPS_def)
  have n1: "\<not> sqrt 2 / 2 > 1 + EPS" using b1 e by linarith
  have n2: "\<not> sqrt 2 / 2 < - 1 - EPS" using b0 e by linarith
  have a: "arccos (sqrt 2 / 2) = pi / 4"
  proof -
    have "arccos (cos (pi / 4)) = pi / 4" by (rule arccos_cos) simp_all
    then show ?thesis by (simp only: cos_45)
  qed
  have cb: "cos_beta_arg (pi / 3) (pi / 2) = Num (sqrt 2 / 2)"
    using z n1 n2 by (simp only: cos_beta_arg_def fdiv_def q c if_True if_False fval.case simp_thms)
  show ?thesis
    using b0 b1 by (simp add: beta_of_def cb acos_c_def a)
qed

theorem intersector_point_counts_witness:
  "get_small_circle_intersections \<lparr>px = 6370, py = 0, pz = 0\<rparr> \<lparr>px = 6370, py = 0, pz = 0\<rparr> 0 = [] \<and>
   get_small_circle_intersections \<lparr>px = 6370, py = 0, pz = 0\<rparr> \<lparr>px = 0, py = 6370, pz = 0\<rparr>
       (6370 * (pi / 3)) =
     [Some (scaled (plus_p
        (times_p (m_norm_of \<lparr>px = 6370, py = 0, pz = 0\<rparr> \<lparr>px = 0, py = 6370, pz = 0\<rparr>) (cos (pi / 4)))
        (times_p (ortho_m_norm_of \<lparr>px = 6370, py = 0, pz = 0\<rparr> \<lparr>px = 0, py = 6370, pz = 0\<rparr>) (sin (pi / 4))))),
      Some (scaled (minus_p
        (times_p (m_norm_of \<lparr>px = 6370, py = 0, pz = 0\<rparr> \<lparr>px = 0, py = 6370, pz = 0\<rparr>) (cos (pi / 4)))
        (times_p (ortho_m_norm_of \<lparr>px = 6370, py = 0, pz = 0\<rparr> \<lparr>px = 0, py = 6370, pz = 0\<rparr>) (sin (pi / 4)))))] \<and>
   circle_pair (pi / 4) (cos (pi / 4)) \<lparr>vx = 1, vy = 0, vz = 0\<rparr> \<lparr>vx = 0, vy = 1, vz = 0\<rparr> =
     [normalize_v (p_of (cos (pi / 4)) \<lparr>vx = 1, vy = 0, vz = 0\<rparr> \<lparr>vx = 0, vy = 1, vz = 0\<rparr>),
      normalize_v (p_of (cos (pi / 4)) \<lparr>vx = 1, vy = 0, vz = 0\<rparr> \<lparr>vx = 0, vy = 1, vz = 0\<rparr>)]"
proof (intro conjI)
  have e: "(0::real) < EPS" by (simp add: EPS_def)
  show "get_small_circle_intersections \<lparr>px = 6370, py = 0, pz = 0\<rparr> \<lparr>px = 6370, py = 0, pz = 0\<rparr> 0 = []"
    using intersector_point_counts [where ?c1.0 = "\<lparr>px = 6370, py = 0, pz = 0\<rparr>"
        and ?c2.0 = "\<lparr>px = 6370, py = 0, pz = 0\<rparr>" and Rs = 0]
      e by (simp only: d_ang_of_same simp_thms)
next
  have e: "(0::real) < EPS" "EPS < 1 / 2" by (simp_all add: EPS_def)
  have p3: "3 \<le> pi" by (rule pi_ge_three)
  have g: "\<not> (pi / 2 > 2 * (pi / 3) + EPS \<or> pi / 2 < EPS)" using e p3 by linarith
  have b: "pi / 4 > EPS" using e p3 by linarith
  show "get_small_circle_intersections \<lparr>px = 6370, py = 0, pz = 0\<rparr> \<lparr>px = 0, py = 6370, pz = 0\<rparr>
       (6370 * (pi / 3)) =
     [Some (scaled (plus_p
        (times_p (m_norm_of \<lparr>px = 6370, py = 0, pz = 0\<rparr> \<lparr>px = 0, py = 6370, pz = 0\<rparr>) (cos (pi / 4)))
        (times_p (ortho_m_norm_of \<lparr>px = 6370, py = 0, pz = 0\<rparr> \<lparr>px = 0, py = 6370, pz = 0\<rparr>) (sin (pi / 4))))),
      Some (scaled (minus_p
        (times_p (m_norm_of \<lparr>px = 6370, py = 0, pz = 0\<rparr> \<lparr>px = 0, py = 6370, pz = 0\<rparr>) (cos (pi / 4)))
        (times_p (ortho_m_norm_of \<lparr>px = 6370, py = 0, pz = 0\<rparr> \<lparr>px = 0, py = 6370, pz = 0\<rparr>) (sin (pi / 4)))))]"
    using intersector_point_counts [where ?c1.0 = "\<lparr>px = 6370, py = 0, pz = 0\<rparr>"
        and ?c2.0 = "\<lparr>px = 0, py = 6370, pz = 0\<rparr>" and Rs = "6370 * (pi / 3)" and beta = "pi / 4"] g b
    by (simp only: d_ang_of_quarter r_ang_of_third beta_of_quarter simp_thms)
next
  have ne: "circle_pair (pi / 4) (cos (pi / 4)) \<lparr>vx = 1, vy = 0, vz = 0\<rparr> \<lparr>vx = 0, vy = 1, vz = 0\<rparr> \<noteq> []"
    by (simp only: circle_pair_quarter) simp
  have p: "p_of (sqrt 2 / 2) \<lparr>vx = 1, vy = 0, vz = 0\<rparr> \<lparr>vx = 0, vy = 1, vz = 0\<rparr>
             = \<lparr>vx = sqrt 2 / 2, vy = sqrt 2 / 2, vz = 0\<rparr>"
    by (simp add: p_of_def dot_def Let_def)
  have h: "h_of (cos (pi / 4)) \<lparr>vx = 1, vy = 0, vz = 0\<rparr> \<lparr>vx = 0, vy = 1, vz = 0\<rparr> = 0"
    by (simp add: h_of_def cos_45 p dot_def Let_def)
  show "circle_pair (pi / 4) (cos (pi / 4)) \<lparr>vx = 1, vy = 0, vz = 0\<rparr> \<lparr>vx = 0, vy = 1, vz = 0\<rparr> =
     [normalize_v (p_of (cos (pi / 4)) \<lparr>vx = 1, vy = 0, vz = 0\<rparr> \<lparr>vx = 0, vy = 1, vz = 0\<rparr>),
      normalize_v (p_of (cos (pi / 4)) \<lparr>vx = 1, vy = 0, vz = 0\<rparr> \<lparr>vx = 0, vy = 1, vz = 0\<rparr>)]"
    using intersector_point_counts [where alpha = "pi / 4" and cosA = "cos (pi / 4)"
        and u = "\<lparr>vx = 1, vy = 0, vz = 0\<rparr>" and v = "\<lparr>vx = 0, vy = 1, vz = 0\<rparr>"] ne h
    by blast
qed

section \<open>The vertex list\<close>

lemma concat_pairs_length:
  assumes "\<And>x. x \<in> set xs \<Longrightarrow> f x = [] \<or> length (f x) = 2"
  shows "length (concat (map f xs)) = 2 * length (filter (\<lambda>x. f x \<noteq> []) xs)"
  using assms
proof (induction xs)
  case Nil
  show ?case by simp
next
  case (Cons x xs)
  have "f x = [] \<or> length (f x) = 2" using Cons.prems by simp
  moreover have "length (concat (map f xs)) = 2 * length (filter (\<lambda>x. f x \<noteq> []) xs)"
    using Cons.prems by (intro Cons.IH) simp
  ultimately show ?case by auto
qed

lemma circle_pair_length_cases:
  "circle_pair alpha cosA u v = [] \<or> length (circle_pair alpha cosA u v) = 2"
  by (simp add: circle_pair_cases)

lemma build_nodes_length_eq:
  "length (build_nodes alpha airports) =
     length airports +
     2 * length (filter (\<lambda>(i, j). circle_pair alpha (cos alpha) (airports ! i) (airports ! j) \<noteq> [])
                        (index_pairs (length airports)))"
proof -
  have "length (concat (map (\<lambda>(i, j). circle_pair alpha (cos alpha) (airports ! i) (airports ! j))
                            (index_pairs (length airports)))) =
        2 * length (filter (\<lambda>x. (\<lambda>(i, j). circle_pair alpha (cos alpha) (airports ! i) (airports ! j)) x \<noteq> [])
                           (index_pairs (length airports)))"
    by (rule concat_pairs_length) (simp add: circle_pair_length_cases split: prod.splits)
  moreover have "(\<lambda>x. (\<lambda>(i, j). circle_pair alpha (cos alpha) (airports ! i) (airports ! j)) x \<noteq> []) =
        (\<lambda>(i, j). circle_pair alpha (cos alpha) (airports ! i) (airports ! j) \<noteq> [])"
    by (simp add: fun_eq_iff split: prod.splits)
  ultimately show ?thesis by (simp add: build_nodes_def)
qed

lemma build_nodes_tangent:
  "build_nodes (real_of_int 1 / EARTH_R)
     [\<lparr>vx = sin (real_of_int 1 / EARTH_R), vy = 0, vz = cos (real_of_int 1 / EARTH_R)\<rparr>,
      \<lparr>vx = - sin (real_of_int 1 / EARTH_R), vy = 0, vz = cos (real_of_int 1 / EARTH_R)\<rparr>] =
   [\<lparr>vx = sin (real_of_int 1 / EARTH_R), vy = 0, vz = cos (real_of_int 1 / EARTH_R)\<rparr>,
    \<lparr>vx = - sin (real_of_int 1 / EARTH_R), vy = 0, vz = cos (real_of_int 1 / EARTH_R)\<rparr>,
    \<lparr>vx = 0, vy = 0, vz = 1\<rparr>, \<lparr>vx = 0, vy = 0, vz = 1\<rparr>]"
proof -
  have i: "index_pairs (Suc (Suc 0)) = [(0, Suc 0)]"
    by (simp add: index_pairs_def upt_rec)
  show ?thesis
    unfolding build_nodes_def
    by (simp only: list.size i list.map concat.simps prod.case nth_Cons_0 nth_Cons_Suc
        circle_pair_tangent_one append.simps add_Suc add_0 One_nat_def)
qed

lemma Compare_equiv_iff:
  "\<not> Compare a b \<and> \<not> Compare b a \<longleftrightarrow>
     \<bar>px a - px b\<bar> \<le> EPS \<and> \<bar>py a - py b\<bar> \<le> EPS \<and> \<bar>pz a - pz b\<bar> \<le> EPS"
proof -
  have e: "0 < EPS" by (simp add: EPS_def)
  show ?thesis using e unfolding Compare_def by (auto simp: abs_if split: if_splits)
qed

lemma Compare_irrefl: "\<not> Compare a a"
  by (simp add: Compare_def EPS_def)

lemma Compare_asym: "Compare a b \<Longrightarrow> \<not> Compare b a"
proof -
  have e: "0 < EPS" by (simp add: EPS_def)
  assume "Compare a b"
  then show ?thesis using e unfolding Compare_def by (auto simp: abs_if split: if_splits)
qed

text \<open>
  The comparator is not transitive: \<open>a < r\<close> by the second coordinate, \<open>r < c\<close> by the
  first, and \<open>a\<close>, \<open>c\<close> agree within \<^verbatim>\<open>EPS\<close> in each coordinate.
\<close>

lemma Compare_not_transitive:
  "Compare \<lparr>px = 0, py = 0, pz = 0\<rparr> \<lparr>px = - (7 / 10 ^ 10), py = 5, pz = 0\<rparr> \<and>
   Compare \<lparr>px = - (7 / 10 ^ 10), py = 5, pz = 0\<rparr> \<lparr>px = 9 / 10 ^ 10, py = 0, pz = 0\<rparr> \<and>
   \<not> Compare \<lparr>px = 0, py = 0, pz = 0\<rparr> \<lparr>px = 9 / 10 ^ 10, py = 0, pz = 0\<rparr> \<and>
   \<not> Compare \<lparr>px = 9 / 10 ^ 10, py = 0, pz = 0\<rparr> \<lparr>px = 0, py = 0, pz = 0\<rparr>"
  by (simp add: Compare_def EPS_def)

text \<open>
  Claim C4 as stated fails on \<^verbatim>\<open>main.c\<close>, which removes nothing from its vertex list. With
  \<open>R = 1\<close> and two airports at the angular distance \<open>2 alpha\<close>, on either side of the
  pole, the list has four vertices, and the vertices 2 and 3 are both the pole.
\<close>

theorem duplicate_vertices_kept:
  "build_nodes (real_of_int 1 / EARTH_R)
     [\<lparr>vx = sin (real_of_int 1 / EARTH_R), vy = 0, vz = cos (real_of_int 1 / EARTH_R)\<rparr>,
      \<lparr>vx = - sin (real_of_int 1 / EARTH_R), vy = 0, vz = cos (real_of_int 1 / EARTH_R)\<rparr>] =
   [\<lparr>vx = sin (real_of_int 1 / EARTH_R), vy = 0, vz = cos (real_of_int 1 / EARTH_R)\<rparr>,
    \<lparr>vx = - sin (real_of_int 1 / EARTH_R), vy = 0, vz = cos (real_of_int 1 / EARTH_R)\<rparr>,
    \<lparr>vx = 0, vy = 0, vz = 1\<rparr>, \<lparr>vx = 0, vy = 0, vz = 1\<rparr>]"
  by (rule build_nodes_tangent)

text \<open>
  Claim C4, amended. \<^verbatim>\<open>main.c\<close> keeps every vertex: its list starts with the airports in
  input order and has two more vertices for every airport pair that its intersector
  accepts, equal positions included. In \<^verbatim>\<open>main.cpp\<close> two points are the same key of the
  vertex set, neither before the other by \<^verbatim>\<open>Point::Compare\<close>, exactly when they agree within
  \<^verbatim>\<open>EPS\<close> in each of the three coordinates; the comparator is irreflexive and asymmetric.
\<close>

theorem vertex_list_contents:
  "take (length airports) (build_nodes alpha airports) = airports \<and>
   length (build_nodes alpha airports) =
     length airports +
     2 * length (filter (\<lambda>(i, j). circle_pair alpha (cos alpha) (airports ! i) (airports ! j) \<noteq> [])
                        (index_pairs (length airports))) \<and>
   (\<not> Compare a b \<and> \<not> Compare b a \<longleftrightarrow>
      \<bar>px a - px b\<bar> \<le> EPS \<and> \<bar>py a - py b\<bar> \<le> EPS \<and> \<bar>pz a - pz b\<bar> \<le> EPS) \<and>
   \<not> Compare a a \<and>
   (Compare a b \<longrightarrow> \<not> Compare b a)"
proof (intro conjI impI)
  show "take (length airports) (build_nodes alpha airports) = airports"
    by (simp add: build_nodes_def)
  show "length (build_nodes alpha airports) =
     length airports +
     2 * length (filter (\<lambda>(i, j). circle_pair alpha (cos alpha) (airports ! i) (airports ! j) \<noteq> [])
                        (index_pairs (length airports)))"
    by (rule build_nodes_length_eq)
  show "\<not> Compare a b \<and> \<not> Compare b a \<longleftrightarrow>
      \<bar>px a - px b\<bar> \<le> EPS \<and> \<bar>py a - py b\<bar> \<le> EPS \<and> \<bar>pz a - pz b\<bar> \<le> EPS"
    by (rule Compare_equiv_iff)
  show "\<not> Compare a a" by (rule Compare_irrefl)
  show "\<not> Compare b a" if "Compare a b" using that by (rule Compare_asym)
qed

theorem vertex_list_contents_witness:
  "take 2 (build_nodes (real_of_int 1 / EARTH_R)
     [\<lparr>vx = sin (real_of_int 1 / EARTH_R), vy = 0, vz = cos (real_of_int 1 / EARTH_R)\<rparr>,
      \<lparr>vx = - sin (real_of_int 1 / EARTH_R), vy = 0, vz = cos (real_of_int 1 / EARTH_R)\<rparr>]) =
     [\<lparr>vx = sin (real_of_int 1 / EARTH_R), vy = 0, vz = cos (real_of_int 1 / EARTH_R)\<rparr>,
      \<lparr>vx = - sin (real_of_int 1 / EARTH_R), vy = 0, vz = cos (real_of_int 1 / EARTH_R)\<rparr>] \<and>
   length (build_nodes (real_of_int 1 / EARTH_R)
     [\<lparr>vx = sin (real_of_int 1 / EARTH_R), vy = 0, vz = cos (real_of_int 1 / EARTH_R)\<rparr>,
      \<lparr>vx = - sin (real_of_int 1 / EARTH_R), vy = 0, vz = cos (real_of_int 1 / EARTH_R)\<rparr>]) = 4 \<and>
   Compare \<lparr>px = 0, py = 0, pz = 0\<rparr> \<lparr>px = 1, py = 0, pz = 0\<rparr> \<and>
   \<not> Compare \<lparr>px = 1, py = 0, pz = 0\<rparr> \<lparr>px = 0, py = 0, pz = 0\<rparr>"
proof -
  have i: "index_pairs (Suc (Suc 0)) = [(0, Suc 0)]"
    by (simp add: index_pairs_def upt_rec)
  have c: "Compare \<lparr>px = 0, py = 0, pz = 0\<rparr> \<lparr>px = 1, py = 0, pz = 0\<rparr>"
    by (simp add: Compare_def EPS_def)
  have ne: "circle_pair (1 / EARTH_R) (cos (1 / EARTH_R))
      \<lparr>vx = sin (1 / EARTH_R), vy = 0, vz = cos (1 / EARTH_R)\<rparr>
      \<lparr>vx = - sin (1 / EARTH_R), vy = 0, vz = cos (1 / EARTH_R)\<rparr> \<noteq> []"
    using circle_pair_tangent_one by simp
  show ?thesis
    using vertex_list_contents [where alpha = "real_of_int 1 / EARTH_R"
        and airports = "[\<lparr>vx = sin (real_of_int 1 / EARTH_R), vy = 0, vz = cos (real_of_int 1 / EARTH_R)\<rparr>,
          \<lparr>vx = - sin (real_of_int 1 / EARTH_R), vy = 0, vz = cos (real_of_int 1 / EARTH_R)\<rparr>]"
        and a = "\<lparr>px = 0, py = 0, pz = 0\<rparr>" and b = "\<lparr>px = 1, py = 0, pz = 0\<rparr>"] c
    by (simp add: i ne eval_nat_numeral)
qed

end
